theory Spec2Isabelle
  imports Main
begin

section \<open>Python values, errors and text\<close>

text \<open>
  The exceptions the modelled code can raise.  A failing call returns \<open>Inl\<close> of one of
  them.  \<open>RecursionError\<close> is what Python raises when a recursion over the node graph
  exceeds the interpreter's depth limit; the recursive functions below take that limit as
  their first argument.  \<open>Unmodelled\<close> is no Python exception: it is the answer of the
  model where it does not follow Python (a number that is no object, a replacement field
  that is not a plain name, a size outside the signed 64-bit range), and no theorem below
  counts it as a failure of the code.
\<close>

datatype error =
    KeyError string
  | IndexError
  | TypeError
  | ValueError
  | AssertionError
  | AttributeError
  | OverflowError
  | RecursionError
  | Unmodelled

text \<open>Printable Python values held by \<open>Constant.c\<close> and \<open>Variable.temporal_value\<close>.\<close>

datatype pyval = PyInt int | PyStr string

fun str_nat :: "nat \<Rightarrow> string" where
  "str_nat n =
     (if n < 10 then [''0123456789'' ! n]
      else str_nat (n div 10) @ [''0123456789'' ! (n mod 10)])"

declare str_nat.simps [simp del]

text \<open>\<open>str(i)\<close> for a Python \<open>int\<close>: decimal digits, with a leading minus sign.\<close>

definition str_int :: "int \<Rightarrow> string" where
  "str_int i = (if i < 0 then ''-'' @ str_nat (nat (- i)) else str_nat (nat i))"

fun str_pyval :: "pyval \<Rightarrow> string" where
  "str_pyval (PyInt i) = str_int i"
| "str_pyval (PyStr s) = s"

text \<open>\<open>sep.join(xs)\<close>.\<close>

fun join :: "string \<Rightarrow> string list \<Rightarrow> string" where
  "join sep [] = []"
| "join sep [x] = x"
| "join sep (x # y # zs) = x @ sep @ join sep (y # zs)"

text \<open>The line feed that ends every declaration.\<close>

definition newline :: string where
  "newline = [CHR 0x0A]"

text \<open>
  A numpy array of samples of type \<open>'f\<close>, as nested axes; \<open>flatten\<close> lists the samples in
  row-major order, as \<open>ndarray.flatten()\<close> does.
\<close>

datatype 'f ndarray = Sample 'f | Axis "'f ndarray list"

fun flatten :: "'f ndarray \<Rightarrow> 'f list" where
  "flatten (Sample x) = [x]"
| "flatten (Axis xs) = concat (map flatten xs)"

text \<open>A list comprehension whose body can raise: it stops at the first error.\<close>

fun mapM :: "('a \<Rightarrow> error + 'b) \<Rightarrow> 'a list \<Rightarrow> error + 'b list" where
  "mapM f [] = Inr []"
| "mapM f (x # xs) =
     (case f x of
        Inl e \<Rightarrow> Inl e
      | Inr y \<Rightarrow> (case mapM f xs of Inl e \<Rightarrow> Inl e | Inr ys \<Rightarrow> Inr (y # ys)))"


section \<open>Variable (src/nncg/nodes/expressions.py)\<close>

text \<open>
  The attributes of a \<open>Variable\<close> object.  \<open>dim_str\<close> and \<open>data_str\<close> do not exist until
  \<open>get_def\<close> assigns them.  The padding is a list of lists, as in the source
  (\<open>List[List[int]]\<close>), read at positions 0 and 1.
\<close>

record 'f variable =
  decl_written :: bool
  index :: int
  type :: string
  name :: string
  dim :: "int list option"
  alignment :: string
  init_data :: "'f ndarray option"
  pads :: "int list list"
  temporal_value :: "pyval option"
  dim_str :: "string option"
  data_str :: "string option"

text \<open>
  Modelled from the spec: \<open>nncg.tools._len\<close> is not among the sources.  The spec calls its
  result the dimension count, zero for a scalar (\<open>dim\<close> is \<open>None\<close>).
\<close>

definition tools_len :: "int list option \<Rightarrow> nat" where
  "tools_len d = (case d of None \<Rightarrow> 0 | Some ds \<Rightarrow> length ds)"

definition set_alignment :: "int \<Rightarrow> 'f variable \<Rightarrow> 'f variable" where
  "set_alignment bytes v =
     (if bytes > 0 then v\<lparr>alignment := ''alignas('' @ str_int (8 * bytes) @ '')''\<rparr>
      else v\<lparr>alignment := ''''\<rparr>)"

definition Variable_init ::
  "string \<Rightarrow> string \<Rightarrow> int list option \<Rightarrow> int \<Rightarrow> int \<Rightarrow> 'f ndarray option \<Rightarrow> 'f variable" where
  "Variable_init ty nm d algn idx idata =
     set_alignment algn
       \<lparr>decl_written = False, index = idx, type = ty, name = nm, dim = d,
        alignment = '''', init_data = idata, pads = replicate (tools_len d) [0, 0],
        temporal_value = None, dim_str = None, data_str = None\<rparr>"

definition Variable_str :: "'f variable \<Rightarrow> string" where
  "Variable_str v =
     (case temporal_value v of
        Some t \<Rightarrow> str_pyval t
      | None \<Rightarrow> name v @ ''_'' @ str_int (index v))"

text \<open>
  \<open>change_padding\<close> returns what the call raised, if anything, together with the object
  after the call.
\<close>

definition change_padding :: "int list list \<Rightarrow> 'f variable \<Rightarrow> (error + unit) \<times> 'f variable" where
  "change_padding ps v =
     (if length ps = tools_len (dim v) then (Inr (), v\<lparr>pads := ps\<rparr>)
      else (Inl AssertionError, v))"

definition get_cast :: "'f variable \<Rightarrow> string" where
  "get_cast v = ''('' @ type v @ ''*)''"

text \<open>
  \<open>np.atleast_1d(self.dim)\<close>: a list of sizes becomes an array of them, and \<open>None\<close>
  becomes the one-element array holding \<open>None\<close>.
\<close>

definition atleast_1d :: "int list option \<Rightarrow> int option list" where
  "atleast_1d d = (case d of None \<Rightarrow> [None] | Some ds \<Rightarrow> map Some ds)"

text \<open>
  numpy holds a list of sizes that all lie in the signed 64-bit range as \<open>int64\<close>
  elements.  Adding a Python \<open>int\<close> to such an element raises \<open>OverflowError\<close> when the
  \<open>int\<close> is outside that range, and otherwise gives the \<open>int64\<close> sum, which wraps around.
\<close>

definition in_int64 :: "int \<Rightarrow> bool" where
  "in_int64 x = (- (2 ^ 63) \<le> x \<and> x < 2 ^ 63)"

definition wrap64 :: "int \<Rightarrow> int" where
  "wrap64 x = (x + 2 ^ 63) mod 2 ^ 64 - 2 ^ 63"

definition int64_array :: "int list option \<Rightarrow> bool" where
  "int64_array d = (case d of None \<Rightarrow> True | Some ds \<Rightarrow> list_all in_int64 ds)"

text \<open>
  One element of the comprehension in \<open>_get_dim_str\<close>:
  \<open>'[' + str(i + j[0] + j[1]) + ']'\<close>, evaluated left to right: \<open>j[0]\<close> is read and added
  to \<open>i\<close>, then \<open>j[1]\<close> is read and added to the sum.
\<close>

fun dim_entry :: "int option \<times> int list \<Rightarrow> error + string" where
  "dim_entry (i, []) = Inl IndexError"
| "dim_entry (None, lo # rest) = Inl TypeError"
| "dim_entry (Some d, lo # rest) =
     (if \<not> in_int64 lo then Inl OverflowError
      else
        (case rest of
           [] \<Rightarrow> Inl IndexError
         | hi # _ \<Rightarrow>
             if \<not> in_int64 hi then Inl OverflowError
             else Inr (''['' @ str_int (wrap64 (wrap64 (d + lo) + hi)) @ '']'')))"

text \<open>
  \<open>_get_dim_str\<close>.  A list of sizes with one outside the signed 64-bit range gets
  another element type from numpy, which is \<open>Unmodelled\<close>.
\<close>

definition get_dim_str :: "'f variable \<Rightarrow> error + string" where
  "get_dim_str v =
     (if \<not> int64_array (dim v) then Inl Unmodelled
      else
        (case mapM dim_entry (zip (atleast_1d (dim v)) (pads v)) of
           Inl e \<Rightarrow> Inl e
         | Inr ss \<Rightarrow> Inr (concat ss)))"

text \<open>
  The text \<open>get_def\<close> formats from the object's attributes:
  \<open>'static {type} {name}_{index} {alignment} {dim_str} = {{ {data_str} }};\n'\<close>.
\<close>

definition def_text :: "'f variable \<Rightarrow> string \<Rightarrow> string \<Rightarrow> string" where
  "def_text v ds data =
     ''static '' @ type v @ '' '' @ name v @ ''_'' @ str_int (index v) @ '' '' @
     alignment v @ '' '' @ ds @ '' = { '' @ data @ '' };'' @ newline"

text \<open>
  A floating-point sample, given by what the digit generation of numpy's
  \<open>format_float_scientific(f, precision=15)\<close> yields for it: the sign, the decimal digits
  read as one number, and the decimal exponent of the first digit.  The digits are the
  shortest that tell the sample from its neighbours, cut to 16 digits: 1.0 has the
  digit 1, 0.25 the digits 25, 0.1 the digit 1 and a third sixteen digits 3.
\<close>

datatype float64 = Float64 (negative: bool) (mantissa: nat) (exponent10: int)

text \<open>The exponent as numpy prints it: a sign and at least two digits.\<close>

definition exponent_text :: "int \<Rightarrow> string" where
  "exponent_text e =
     (if e < 0 then ''-'' else ''+'') @
     (if \<bar>e\<bar> < 10 then ''0'' else '''') @ str_nat (nat \<bar>e\<bar>)"

text \<open>
  The text \<open>format_float_scientific\<close> lays out from those digits: the first digit, the
  point, the remaining digits as they are (none are added), and the exponent.
\<close>

definition format_float_scientific :: "float64 \<Rightarrow> string" where
  "format_float_scientific f =
     (if negative f then ''-'' else '''') @
     (case str_nat (mantissa f) of
        [] \<Rightarrow> []
      | d # ds \<Rightarrow> d # ''.'' @ ds) @
     ''e'' @ exponent_text (exponent10 f)"


text \<open>
  \<open>get_def\<close>.  The first argument stands for the call
  \<open>np.format_float_scientific(f, precision=15)\<close>, which renders one sample and which
  \<open>format_float_scientific\<close> above models.  The result is
  the returned text (\<open>None\<close> for the bare \<open>return\<close>) or the exception raised, and the
  object after the call.
\<close>

definition get_def ::
  "('f \<Rightarrow> string) \<Rightarrow> bool \<Rightarrow> 'f variable \<Rightarrow> (error + string option) \<times> 'f variable" where
  "get_def fmt write_init_data v =
     (if decl_written v then (Inr None, v)
      else
        (case get_dim_str v of
           Inl e \<Rightarrow> (Inl e, v)
         | Inr ds \<Rightarrow>
             (let data =
                    (case init_data v of
                       Some arr \<Rightarrow>
                         if write_init_data then join '','' (map fmt (flatten arr)) else ''0''
                     | None \<Rightarrow> ''0'');
                  v' = v\<lparr>dim_str := Some ds, data_str := Some data\<rparr>
              in (Inr (Some (def_text v' ds data)), v'))))"

text \<open>\<open>get_pointer_decl\<close>: \<open>'{type} *{name}_{index} {alignment};\n'\<close>.  It assigns nothing.\<close>

definition get_pointer_decl :: "'f variable \<Rightarrow> string" where
  "get_pointer_decl v =
     type v @ '' *'' @ name v @ ''_'' @ str_int (index v) @ '' '' @ alignment v @ '';'' @ newline"

text \<open>
  The calls a client can make on a \<open>Variable\<close>, and a run of such calls on one object.
  A call that raises leaves the object as the method left it, and the run goes on (the
  client caught the exception).
\<close>

datatype var_call =
    ChangePadding "int list list"
  | SetAlignment int
  | GetDef bool
  | GetPointerDecl
  | GetCast

fun call :: "('f \<Rightarrow> string) \<Rightarrow> var_call \<Rightarrow> 'f variable \<Rightarrow> 'f variable" where
  "call fmt (ChangePadding ps) v = snd (change_padding ps v)"
| "call fmt (SetAlignment b) v = set_alignment b v"
| "call fmt (GetDef w) v = snd (get_def fmt w v)"
| "call fmt GetPointerDecl v = v"
| "call fmt GetCast v = v"

fun calls :: "('f \<Rightarrow> string) \<Rightarrow> var_call list \<Rightarrow> 'f variable \<Rightarrow> 'f variable" where
  "calls fmt [] v = v"
| "calls fmt (c # cs) v = calls fmt cs (call fmt c v)"

text \<open>
  The sizes are well formed for rendering when every axis has a size in the signed
  64-bit range and every padding entry has a leading and a trailing amount in that
  range, with the padded size in the range too.
\<close>

definition sizes_ok :: "'f variable \<Rightarrow> bool" where
  "sizes_ok v =
     (int64_array (dim v) \<and>
      list_all (\<lambda>(i, j). i \<noteq> None \<and> 2 \<le> length j \<and> in_int64 (j ! 0) \<and> in_int64 (j ! 1) \<and>
                         in_int64 (the i + j ! 0 + j ! 1))
               (zip (atleast_1d (dim v)) (pads v)))"

text \<open>What \<open>_get_dim_str\<close> returns on well-formed sizes.\<close>

definition dim_text :: "'f variable \<Rightarrow> string" where
  "dim_text v =
     concat (map (\<lambda>(i, j). ''['' @ str_int (the i + j ! 0 + j ! 1) @ '']'')
                 (zip (atleast_1d (dim v)) (pads v)))"


text \<open>The initializer \<open>get_def\<close> writes between the braces.\<close>

definition data_text :: "('f \<Rightarrow> string) \<Rightarrow> bool \<Rightarrow> 'f variable \<Rightarrow> string" where
  "data_text fmt w v =
     (case init_data v of
        Some arr \<Rightarrow> if w then join '','' (map fmt (flatten arr)) else ''0''
      | None \<Rightarrow> ''0'')"

text \<open>The invariant of the padding: one entry for each dimension.\<close>

definition pads_inv :: "'f variable \<Rightarrow> bool" where
  "pads_inv v = (length (pads v) = tools_len (dim v))"


section \<open>Nodes and edges\<close>

text \<open>
  Objects are identified by their position in a heap of nodes, so that two references
  to one object are the same number: aliasing is equality of positions.
\<close>

type_synonym node_id = nat

text \<open>
  Modelled from the spec: the classes \<open>Edge\<close> and \<open>TreeNode\<close> (nncg/traverse/tree.py)
  are not among the sources.  The spec gives an edge as a name, a kind tag and a target
  node, and a node's outgoing edges as a mapping from edge name to edge that keeps the
  order of insertion.
\<close>

record edge =
  ename :: string
  n_type :: string
  target :: node_id

datatype 'f node_kind =
    Expression string
  | Constant pyval
  | Variable "'f variable"
  | IndexedVariable bool

datatype 'f node = Node (kind: "'f node_kind") (edges: "edge list")

type_synonym 'f heap = "'f node list"

text \<open>The outgoing edges of an object; a number that is no object has none.\<close>

definition edges_of :: "'f heap \<Rightarrow> node_id \<Rightarrow> edge list" where
  "edges_of h i = (if i < length h then edges (h ! i) else [])"

text \<open>
  Modelled from the spec: \<open>TreeNode.add_edge\<close> attaches an edge, and an edge added under
  a name already in use replaces the earlier one (at its place, as an assignment into a
  Python \<open>dict\<close> does).
\<close>

definition add_edge :: "string \<Rightarrow> node_id \<Rightarrow> string \<Rightarrow> edge list \<Rightarrow> edge list" where
  "add_edge nm tgt ty es =
     (let e = \<lparr>ename = nm, n_type = ty, target = tgt\<rparr>
      in if nm \<in> ename ` set es then map (\<lambda>x. if ename x = nm then e else x) es
         else es @ [e])"

text \<open>
  Modelled from the spec: the kind tag \<open>add_edge\<close> uses when the caller gives none is not
  in the sources; it is a tag other than \<open>index\<close>.
\<close>

definition default_n_type :: string where
  "default_n_type = ''forward''"

text \<open>
  Modelled from the spec: \<open>TreeNode.get_node\<close> looks a child up by the exact edge name
  and fails if there is none; \<open>TreeNode.get_node_by_type\<close> returns the children whose
  edge has the given kind, in attachment order.
\<close>

definition get_node :: "edge list \<Rightarrow> string \<Rightarrow> error + node_id" where
  "get_node es nm =
     (case find (\<lambda>e. ename e = nm) es of
        None \<Rightarrow> Inl (KeyError nm)
      | Some e \<Rightarrow> Inr (target e))"

definition get_node_by_type :: "edge list \<Rightarrow> string \<Rightarrow> node_id list" where
  "get_node_by_type es ty = map target (filter (\<lambda>e. n_type e = ty) es)"

text \<open>\<open>xs[k]\<close> for a position \<open>k\<close> that is not negative.\<close>

definition item :: "'a list \<Rightarrow> nat \<Rightarrow> error + 'a" where
  "item xs k = (if k < length xs then Inr (xs ! k) else Inl IndexError)"

text \<open>
  \<open>xs.index(x)\<close> for an \<open>x\<close> that occurs in \<open>xs\<close>: the first position holding it.

  Modelled from the spec: \<open>TreeNode\<close> is not among the sources; its objects compare by
  identity (the spec's "same instance").
\<close>

definition list_index :: "'a list \<Rightarrow> 'a \<Rightarrow> nat" where
  "list_index xs x = length (takeWhile (\<lambda>y. y \<noteq> x) xs)"


section \<open>Templates: str.format with keyword arguments\<close>

text \<open>
  \<open>snippet.format(**kwargs)\<close>, read from left to right as Python does: literal text is
  copied, \<open>{{\<close> and \<open>}}\<close> stand for one brace, and a replacement field \<open>{name}\<close> is
  replaced by the text of the argument bound to \<open>name\<close>, looked up and rendered by \<open>get\<close>
  when the field is reached.  A field with an empty or numeric name refers to a
  positional argument, of which there are none.  The model covers fields that are plain
  names; a field with an attribute, an item, a conversion, a format specification or a
  nested field is \<open>Unmodelled\<close>.
\<close>

definition emit :: "string \<Rightarrow> error + string \<Rightarrow> error + string" where
  "emit s r = (case r of Inl e \<Rightarrow> Inl e | Inr t \<Rightarrow> Inr (s @ t))"

definition is_digit :: "char \<Rightarrow> bool" where
  "is_digit c = (c \<in> set ''0123456789'')"

definition plain_name :: "string \<Rightarrow> bool" where
  "plain_name f = list_all (\<lambda>c. c \<notin> set ''{.[!:'') f"

definition field :: "(string \<Rightarrow> error + string) \<Rightarrow> string \<Rightarrow> error + string" where
  "field get f =
     (if \<not> plain_name f then Inl Unmodelled
      else if list_all is_digit f then Inl IndexError
      else get f)"

fun format_from ::
  "(string \<Rightarrow> error + string) \<Rightarrow> string option \<Rightarrow> string \<Rightarrow> error + string" where
  "format_from get None [] = Inr []"
| "format_from get (Some f) [] = Inl ValueError"
| "format_from get None (c # cs) =
     (if c = CHR ''{'' then
        (case cs of
           [] \<Rightarrow> Inl ValueError
         | d # ds \<Rightarrow>
             if d = CHR ''{'' then emit [c] (format_from get None ds)
             else format_from get (Some []) cs)
      else if c = CHR ''}'' then
        (case cs of
           [] \<Rightarrow> Inl ValueError
         | d # ds \<Rightarrow>
             if d = CHR ''}'' then emit [c] (format_from get None ds)
             else Inl ValueError)
      else emit [c] (format_from get None cs))"
| "format_from get (Some f) (c # cs) =
     (if c = CHR ''}'' then
        (case field get f of
           Inl e \<Rightarrow> Inl e
         | Inr s \<Rightarrow> emit s (format_from get None cs))
      else format_from get (Some (f @ [c])) cs)"

definition format :: "string \<Rightarrow> (string \<Rightarrow> error + string) \<Rightarrow> error + string" where
  "format snippet get = format_from get None snippet"


section \<open>Rendering nodes (src/nncg/nodes/expressions.py)\<close>

text \<open>
  One subscript of \<open>IndexedVariable.__str__\<close>: what the body of the loop over the index
  nodes \<open>ns\<close> adds for the index node \<open>i\<close>, whose text is \<open>t\<close>.  \<open>var\<close> is the node under
  the edge \<open>var\<close>; reading \<open>pads\<close> from a node that is no \<open>Variable\<close> raises.
\<close>

definition subscript ::
  "bool \<Rightarrow> 'f node_kind \<Rightarrow> node_id list \<Rightarrow> node_id \<Rightarrow> string \<Rightarrow> error + string" where
  "subscript padding_to_offset var ns i t =
     (if padding_to_offset then
        (case var of
           Variable v \<Rightarrow>
             (case item (pads v) (list_index ns i) of
                Inl e \<Rightarrow> Inl e
              | Inr p \<Rightarrow>
                  (case item p 0 of
                     Inl e \<Rightarrow> Inl e
                   | Inr lo \<Rightarrow> Inr (''['' @ t @ '' + '' @ str_int lo @ '']'')))
         | _ \<Rightarrow> Inl AttributeError)
      else Inr (''['' @ t @ '']''))"

text \<open>
  \<open>str(node)\<close>, to the recursion depth \<open>limit\<close>: \<open>Expression.__str__\<close>,
  \<open>Constant.__str__\<close>, \<open>Variable.__str__\<close> and \<open>IndexedVariable.__str__\<close>.

  Modelled from the spec: \<open>Edge.__str__\<close> is not among the sources; an edge given to
  \<open>format\<close> renders as its target does.
\<close>

fun str_node :: "nat \<Rightarrow> 'f heap \<Rightarrow> node_id \<Rightarrow> error + string" where
  "str_node 0 h i = Inl RecursionError"
| "str_node (Suc limit) h i =
     (if length h \<le> i then Inl Unmodelled
      else
        (case kind (h ! i) of
           Expression snippet \<Rightarrow>
             format snippet
               (\<lambda>nm. case find (\<lambda>e. ename e = nm) (edges (h ! i)) of
                        None \<Rightarrow> Inl (KeyError nm)
                      | Some e \<Rightarrow> str_node limit h (target e))
         | Constant c \<Rightarrow> Inr (str_pyval c)
         | Variable v \<Rightarrow> Inr (Variable_str v)
         | IndexedVariable padding_to_offset \<Rightarrow>
             (case get_node (edges (h ! i)) ''var'' of
                Inl e \<Rightarrow> Inl e
              | Inr var \<Rightarrow>
                  (case str_node limit h var of
                     Inl e \<Rightarrow> Inl e
                   | Inr s \<Rightarrow>
                       (let ns = get_node_by_type (edges (h ! i)) ''index''
                        in case mapM (\<lambda>j. case str_node limit h j of
                                             Inl e \<Rightarrow> Inl e
                                           | Inr t \<Rightarrow>
                                               subscript padding_to_offset (kind (h ! var)) ns j t)
                                     ns of
                             Inl e \<Rightarrow> Inl e
                           | Inr subs \<Rightarrow> Inr (s @ concat subs))))))"

declare str_node.simps [simp del]

text \<open>Creating objects: a new object takes the next free position of the heap.\<close>

definition Constant_init :: "pyval \<Rightarrow> 'f heap \<Rightarrow> node_id \<times> 'f heap" where
  "Constant_init c h = (length h, h @ [Node (Constant c) []])"

definition Variable_node :: "'f variable \<Rightarrow> 'f heap \<Rightarrow> node_id \<times> 'f heap" where
  "Variable_node v h = (length h, h @ [Node (Variable v) []])"

definition Expression_init ::
  "string \<Rightarrow> (string \<times> node_id) list \<Rightarrow> 'f heap \<Rightarrow> node_id \<times> 'f heap" where
  "Expression_init snippet kwargs h =
     (length h,
      h @ [Node (Expression snippet)
                (foldl (\<lambda>es (a, t). add_edge a t ''m_expr'' es) [] kwargs)])"

definition IndexedVariable_init :: "node_id \<Rightarrow> bool \<Rightarrow> 'f heap \<Rightarrow> node_id \<times> 'f heap" where
  "IndexedVariable_init var padding_to_offset h =
     (length h,
      h @ [Node (IndexedVariable padding_to_offset) (add_edge ''var'' var default_n_type [])])"

definition set_indices :: "node_id \<Rightarrow> node_id list \<Rightarrow> 'f heap \<Rightarrow> 'f heap" where
  "set_indices self indices h =
     h[self := Node (kind (h ! self))
                    (foldl (\<lambda>es (i, idx). add_edge (str_nat idx) i ''index'' es)
                           (edges (h ! self))
                           (zip indices [0..<length indices]))]"


section \<open>Traversal\<close>

text \<open>
  Modelled from the spec: the traversal engine (\<open>TreeNode.traverse\<close>, \<open>TraverseAction\<close>)
  is not among the sources.  An action is a pair of hooks over a state of the action's
  own.  For every edge, in attachment order, the walk calls the pre-order hook; if the
  hook says to descend, the walk recurses into the outgoing edges of the target; then it
  calls the post-order hook with the same edge.  \<open>limit\<close> bounds the depth of the
  recursion.
\<close>

record 's action =
  pre_action :: "edge \<Rightarrow> 's \<Rightarrow> error + bool \<times> 's"
  post_action :: "edge \<Rightarrow> 's \<Rightarrow> error + 's"

fun traverse_edges ::
  "nat \<Rightarrow> 'f heap \<Rightarrow> 's action \<Rightarrow> edge list \<Rightarrow> 's \<Rightarrow> error + 's" where
  "traverse_edges limit h a [] s = Inr s"
| "traverse_edges limit h a (e # es) s =
     (case pre_action a e s of
        Inl err \<Rightarrow> Inl err
      | Inr (descend, s1) \<Rightarrow>
          (case (if descend then
                   (case limit of
                      0 \<Rightarrow> Inl RecursionError
                    | Suc l \<Rightarrow> traverse_edges l h a (edges_of h (target e)) s1)
                 else Inr s1) of
             Inl err \<Rightarrow> Inl err
           | Inr s2 \<Rightarrow>
               (case post_action a e s2 of
                  Inl err \<Rightarrow> Inl err
                | Inr s3 \<Rightarrow> traverse_edges limit h a es s3)))"

definition traverse :: "nat \<Rightarrow> 'f heap \<Rightarrow> 's action \<Rightarrow> node_id \<Rightarrow> 's \<Rightarrow> error + 's" where
  "traverse limit h a root s = traverse_edges limit h a (edges_of h root) s"


section \<open>SearchNode (src/nncg/traverse/actions/searchnode.py)\<close>

record search_state =
  result :: "node_id list list"
  cur_path_stack :: "node_id list"

definition SearchNode_init :: search_state where
  "SearchNode_init = \<lparr>result = [], cur_path_stack = []\<rparr>"

definition SearchNode_pre_action :: "edge \<Rightarrow> search_state \<Rightarrow> error + bool \<times> search_state" where
  "SearchNode_pre_action e st =
     Inr (True, st\<lparr>cur_path_stack := cur_path_stack st @ [target e]\<rparr>)"

text \<open>\<open>list.pop()\<close> raises on the empty list.\<close>

definition SearchNode_post_action ::
  "node_id \<Rightarrow> edge \<Rightarrow> search_state \<Rightarrow> error + search_state" where
  "SearchNode_post_action search_for e st =
     (let st1 = (if target e = search_for
                 then st\<lparr>result := result st @ [cur_path_stack st]\<rparr> else st)
      in if cur_path_stack st1 = [] then Inl IndexError
         else Inr (st1\<lparr>cur_path_stack := butlast (cur_path_stack st1)\<rparr>))"

definition SearchNode :: "node_id \<Rightarrow> search_state action" where
  "SearchNode search_for =
     \<lparr>pre_action = SearchNode_pre_action,
      post_action = SearchNode_post_action search_for\<rparr>"

text \<open>A search: a walk from \<open>root\<close> with a fresh \<open>SearchNode\<close>, and the result it holds.\<close>

definition search :: "nat \<Rightarrow> 'f heap \<Rightarrow> node_id \<Rightarrow> node_id \<Rightarrow> error + node_id list list" where
  "search limit h root search_for =
     (case traverse limit h (SearchNode search_for) root SearchNode_init of
        Inl e \<Rightarrow> Inl e
      | Inr st \<Rightarrow> Inr (result st))"


section \<open>Paths and cycles\<close>

text \<open>
  A path from a node is a chain of edges, each leaving the target of the one before.
  One visit of an edge by the walk is one path from the root that ends with the edge.
\<close>

fun is_path :: "'f heap \<Rightarrow> node_id \<Rightarrow> edge list \<Rightarrow> bool" where
  "is_path h i [] = True"
| "is_path h i (e # p) = (e \<in> set (edges_of h i) \<and> is_path h (target e) p)"

definition end_of :: "node_id \<Rightarrow> edge list \<Rightarrow> node_id" where
  "end_of i p = (if p = [] then i else target (last p))"

definition cycle_free :: "'f heap \<Rightarrow> bool" where
  "cycle_free h = (\<forall>i p. p \<noteq> [] \<and> is_path h i p \<longrightarrow> end_of i p \<noteq> i)"


section \<open>Enumerating the visits of a walk\<close>

text \<open>
  A chain from a list of edges starts with one of them and goes on as a path from its
  target.  The paths from a node are the chains from its outgoing edges.
\<close>

definition chain :: "'f heap \<Rightarrow> edge list \<Rightarrow> edge list \<Rightarrow> bool" where
  "chain h es p = (case p of [] \<Rightarrow> True | e # q \<Rightarrow> e \<in> set es \<and> is_path h (target e) q)"

text \<open>The edge names of every node are pairwise different, as the keys of a \<open>dict\<close> are.\<close>

definition names_unique :: "'f heap \<Rightarrow> bool" where
  "names_unique h = list_all (\<lambda>nd. distinct (map ename (edges nd))) h"

text \<open>The depth \<open>limit\<close> suffices for the walk over the edges \<open>es\<close> and all below them.\<close>

fun fits :: "nat \<Rightarrow> 'f heap \<Rightarrow> edge list \<Rightarrow> bool" where
  "fits limit h [] = True"
| "fits 0 h (e # es) = False"
| "fits (Suc l) h (e # es) = (fits l h (edges_of h (target e)) \<and> fits (Suc l) h es)"

text \<open>
  The non-empty chains from \<open>es\<close> down to the depth \<open>limit\<close>, in depth-first order: each
  chain before the chains that extend it (\<open>pre_walks\<close>), or after them (\<open>post_walks\<close>).
\<close>

fun pre_walks :: "nat \<Rightarrow> 'f heap \<Rightarrow> edge list \<Rightarrow> edge list list" where
  "pre_walks limit h [] = []"
| "pre_walks 0 h (e # es) = [e] # pre_walks 0 h es"
| "pre_walks (Suc l) h (e # es) =
     [e] # map ((#) e) (pre_walks l h (edges_of h (target e))) @ pre_walks (Suc l) h es"

fun post_walks :: "nat \<Rightarrow> 'f heap \<Rightarrow> edge list \<Rightarrow> edge list list" where
  "post_walks limit h [] = []"
| "post_walks 0 h (e # es) = [e] # post_walks 0 h es"
| "post_walks (Suc l) h (e # es) =
     map ((#) e) (post_walks l h (edges_of h (target e))) @ [e] # post_walks (Suc l) h es"


section \<open>Placeholders of a template\<close>

text \<open>
  The reading of a template that the statements about \<open>Expression\<close> use: its literal
  characters and its placeholders, in order.  A template has this reading when its
  braces are balanced as \<open>str.format\<close> asks and every replacement field is a plain
  keyword name.
\<close>

datatype piece = Lit char | Field string

definition cons_piece :: "piece \<Rightarrow> piece list option \<Rightarrow> piece list option" where
  "cons_piece p r = (case r of None \<Rightarrow> None | Some ps \<Rightarrow> Some (p # ps))"

fun pieces_from :: "string option \<Rightarrow> string \<Rightarrow> piece list option" where
  "pieces_from None [] = Some []"
| "pieces_from (Some f) [] = None"
| "pieces_from None (c # cs) =
     (if c = CHR ''{'' then
        (case cs of
           [] \<Rightarrow> None
         | d # ds \<Rightarrow>
             if d = CHR ''{'' then cons_piece (Lit c) (pieces_from None ds)
             else pieces_from (Some []) cs)
      else if c = CHR ''}'' then
        (case cs of
           [] \<Rightarrow> None
         | d # ds \<Rightarrow>
             if d = CHR ''}'' then cons_piece (Lit c) (pieces_from None ds)
             else None)
      else cons_piece (Lit c) (pieces_from None cs))"
| "pieces_from (Some f) (c # cs) =
     (if c = CHR ''}'' then
        (if plain_name f \<and> \<not> list_all is_digit f
         then cons_piece (Field f) (pieces_from None cs) else None)
      else pieces_from (Some (f @ [c])) cs)"

definition pieces :: "string \<Rightarrow> piece list option" where
  "pieces snippet = pieces_from None snippet"

definition placeholders :: "piece list \<Rightarrow> string set" where
  "placeholders ps = {f. Field f \<in> set ps}"

text \<open>The template with the text \<open>child f\<close> in the place of every placeholder \<open>f\<close>.\<close>

fun fill :: "(string \<Rightarrow> string) \<Rightarrow> piece list \<Rightarrow> string" where
  "fill child [] = []"
| "fill child (Lit c # ps) = c # fill child ps"
| "fill child (Field f # ps) = child f @ fill child ps"

text \<open>
  Filling the pieces from left to right with the texts that \<open>get\<close> returns, stopping at
  the first placeholder for which \<open>get\<close> fails.
\<close>

fun render_pieces :: "(string \<Rightarrow> error + string) \<Rightarrow> piece list \<Rightarrow> error + string" where
  "render_pieces get [] = Inr []"
| "render_pieces get (Lit c # ps) = emit [c] (render_pieces get ps)"
| "render_pieces get (Field f # ps) =
     (case get f of Inl e \<Rightarrow> Inl e | Inr s \<Rightarrow> emit s (render_pieces get ps))"

text \<open>The edge bound to a name, as the lookup in the \<open>dict\<close> of edges finds it.\<close>

definition bound :: "edge list \<Rightarrow> string \<Rightarrow> edge option" where
  "bound es nm = find (\<lambda>e. ename e = nm) es"


section \<open>Example graphs\<close>

text \<open>
  The constants 1 and 2 and the expression \<open>{a} + {b}\<close> over them (objects 0, 1, 2).
\<close>

definition sum_heap :: "string heap" where
  "sum_heap =
     snd (Expression_init ''{a} + {b}'' [(''a'', 0), (''b'', 1)]
       (snd (Constant_init (PyInt 2) (snd (Constant_init (PyInt 1) [])))))"

text \<open>The same constants under an expression whose template names only \<open>a\<close>.\<close>

definition spare_heap :: "string heap" where
  "spare_heap =
     snd (Expression_init ''{a}'' [(''a'', 0), (''b'', 1)]
       (snd (Constant_init (PyInt 2) (snd (Constant_init (PyInt 1) [])))))"

text \<open>The same constants under an expression whose template names \<open>c\<close>, which is not bound.\<close>

definition missing_heap :: "string heap" where
  "missing_heap =
     snd (Expression_init ''{a} + {c}'' [(''a'', 0), (''b'', 1)]
       (snd (Constant_init (PyInt 2) (snd (Constant_init (PyInt 1) [])))))"

text \<open>
  A matrix \<open>x\<close> with padding \<open>[[1, 1], [2, 2]]\<close> (object 0), a scalar \<open>i\<close> (object 1) and
  the indexed variable \<open>x[i][i]\<close> (object 2), built by \<open>IndexedVariable(x)\<close> and
  \<open>set_indices([i, i])\<close>.
\<close>

definition diag_heap :: "string heap" where
  "diag_heap =
     set_indices 2 [1, 1]
       (snd (IndexedVariable_init 0 True
         (snd (Variable_node (Variable_init ''int'' ''i'' None 0 1 None)
           (snd (Variable_node
                  (snd (change_padding [[1, 1], [2, 2]]
                         (Variable_init ''float'' ''x'' (Some [4, 4]) 0 0 None)))
                  []))))))"

text \<open>
  A variable (object 0), two expressions that each hold an edge to it (objects 1 and 2)
  and a root expression over both (object 3).
\<close>

definition shared_heap :: "string heap" where
  "shared_heap =
     snd (Expression_init ''{l} {r}'' [(''l'', 1), (''r'', 2)]
       (snd (Expression_init ''-{y}'' [(''y'', 0)]
         (snd (Expression_init ''{x}'' [(''x'', 0)]
           (snd (Variable_node (Variable_init ''float'' ''v'' None 0 0 None) [])))))))"


section \<open>Properties of Variable\<close>

lemma wrap64_id: "in_int64 x \<Longrightarrow> wrap64 x = x"
  by (simp add: in_int64_def wrap64_def)

lemma wrap64_add: "wrap64 (wrap64 a + b) = wrap64 (a + b)"
proof -
  have "(((a + 2 ^ 63) mod 2 ^ 64 - 2 ^ 63 + b) + 2 ^ 63) mod 2 ^ 64 =
        ((a + 2 ^ 63) mod 2 ^ 64 + b) mod (2 ^ 64 :: int)"
    by (simp add: algebra_simps)
  also have "\<dots> = (a + 2 ^ 63 + b) mod 2 ^ 64"
    by (rule mod_add_left_eq)
  finally show ?thesis by (simp add: wrap64_def algebra_simps)
qed

lemma dim_entry_ok:
  assumes "i \<noteq> None" and "2 \<le> length j"
    and "in_int64 (j ! 0)" and "in_int64 (j ! 1)" and "in_int64 (the i + j ! 0 + j ! 1)"
  shows "dim_entry (i, j) = Inr (''['' @ str_int (the i + j ! 0 + j ! 1) @ '']'')"
proof -
  from assms(1) obtain d where d: "i = Some d" by auto
  from assms(2) obtain lo hi rest where r: "j = lo # hi # rest"
    by (cases j; cases "tl j") auto
  have "wrap64 (wrap64 (d + lo) + hi) = d + lo + hi"
    using assms(5) by (simp add: wrap64_add wrap64_id d r)
  with assms(3,4) show ?thesis by (simp add: d r)
qed

lemma mapM_dim_entry_ok:
  "list_all (\<lambda>(i, j). i \<noteq> None \<and> 2 \<le> length j \<and> in_int64 (j ! 0) \<and> in_int64 (j ! 1) \<and>
                       in_int64 (the i + j ! 0 + j ! 1)) zs \<Longrightarrow>
   mapM dim_entry zs =
     Inr (map (\<lambda>(i, j). ''['' @ str_int (the i + j ! 0 + j ! 1) @ '']'') zs)"
proof (induction zs)
  case Nil
  then show ?case by simp
next
  case (Cons z zs)
  obtain i j where z: "z = (i, j)" by (cases z)
  from Cons.prems z have "i \<noteq> None" "2 \<le> length j" "in_int64 (j ! 0)" "in_int64 (j ! 1)"
    "in_int64 (the i + j ! 0 + j ! 1)" by auto
  then have "dim_entry z = Inr (''['' @ str_int (the i + j ! 0 + j ! 1) @ '']'')"
    unfolding z by (rule dim_entry_ok)
  moreover from Cons have
    "mapM dim_entry zs = Inr (map (\<lambda>(i, j). ''['' @ str_int (the i + j ! 0 + j ! 1) @ '']'') zs)"
    by simp
  ultimately show ?case by (simp add: z)
qed

lemma get_dim_str_ok: "sizes_ok v \<Longrightarrow> get_dim_str v = Inr (dim_text v)"
  by (simp add: sizes_ok_def get_dim_str_def dim_text_def mapM_dim_entry_ok)

lemma get_def_written: "decl_written v \<Longrightarrow> get_def fmt w v = (Inr None, v)"
  by (simp add: get_def_def)

lemma get_def_fresh:
  assumes "sizes_ok v" and "\<not> decl_written v"
  shows "get_def fmt w v =
           (Inr (Some (def_text v (dim_text v) (data_text fmt w v))),
            v\<lparr>dim_str := Some (dim_text v), data_str := Some (data_text fmt w v)\<rparr>)"
  using assms
  by (simp add: get_def_def get_dim_str_ok data_text_def def_text_def Let_def
           split: option.splits)

lemma sizes_ok_attrs [simp]:
  "sizes_ok (v\<lparr>dim_str := a, data_str := b\<rparr>) = sizes_ok v"
  "sizes_ok (v\<lparr>alignment := c\<rparr>) = sizes_ok v"
  "sizes_ok (v\<lparr>decl_written := d\<rparr>) = sizes_ok v"
  by (simp_all add: sizes_ok_def)

lemma pairs_sizes_ok:
  assumes "dim v = Some D" and "pads v = map (\<lambda>(lo, hi). [lo, hi]) P"
    and "length P = length D"
    and "\<forall>i < length D. in_int64 (D ! i) \<and> in_int64 (fst (P ! i)) \<and> in_int64 (snd (P ! i)) \<and>
                          in_int64 (D ! i + fst (P ! i) + snd (P ! i))"
  shows "sizes_ok v"
proof -
  have "int64_array (dim v)"
    using assms(1,4) by (auto simp: int64_array_def list_all_length)
  moreover have "list_all (\<lambda>(i, j). i \<noteq> None \<and> 2 \<le> length j \<and> in_int64 (j ! 0) \<and>
                     in_int64 (j ! 1) \<and> in_int64 (the i + j ! 0 + j ! 1))
                   (zip (atleast_1d (dim v)) (pads v))"
    using assms by (auto simp: atleast_1d_def list_all_length split: prod.splits)
  ultimately show ?thesis by (simp add: sizes_ok_def)
qed

lemma dim_text_attrs [simp]:
  "dim_text (v\<lparr>dim_str := a, data_str := b\<rparr>) = dim_text v"
  "dim_text (v\<lparr>alignment := c\<rparr>) = dim_text v"
  by (simp_all add: dim_text_def)

lemma data_text_attrs [simp]:
  "data_text fmt w (v\<lparr>dim_str := a, data_str := b\<rparr>) = data_text fmt w v"
  "data_text fmt w (v\<lparr>alignment := c\<rparr>) = data_text fmt w v"
  by (simp_all add: data_text_def)

lemma def_text_attrs [simp]:
  "def_text (v\<lparr>dim_str := a, data_str := b\<rparr>) ds data = def_text v ds data"
  by (simp add: def_text_def)

lemma pairs_dim_text:
  assumes "dim v = Some D" and "pads v = map (\<lambda>(lo, hi). [lo, hi]) P"
    and "length P = length D"
  shows "dim_text v =
           concat (map (\<lambda>i. ''['' @ str_int (D ! i + fst (P ! i) + snd (P ! i)) @ '']'')
                       [0..<length D])"
proof -
  have "map (\<lambda>(i, j). ''['' @ str_int (the i + j ! 0 + j ! 1) @ '']'')
            (zip (map Some D) (map (\<lambda>(lo, hi). [lo, hi]) P)) =
        map (\<lambda>i. ''['' @ str_int (D ! i + fst (P ! i) + snd (P ! i)) @ '']'') [0..<length D]"
    using assms(3) by (intro nth_equalityI) (auto split: prod.splits)
  then show ?thesis using assms(1,2) by (simp add: dim_text_def atleast_1d_def)
qed





lemma call_pads_inv: "pads_inv v \<Longrightarrow> pads_inv (call fmt c v)"
  by (cases c)
     (auto simp: pads_inv_def change_padding_def set_alignment_def get_def_def Let_def
           split: sum.splits)

lemma calls_pads_inv: "pads_inv v \<Longrightarrow> pads_inv (calls fmt cs v)"
  by (induction cs arbitrary: v) (simp_all add: call_pads_inv)

lemma init_pads_inv: "pads_inv (Variable_init ty nm d algn idx idata)"
  by (simp add: pads_inv_def Variable_init_def set_alignment_def)


text \<open>The equations that evaluate the methods of a concrete variable.\<close>

lemmas var_eval =
  Variable_init_def set_alignment_def get_def_def get_dim_str_def atleast_1d_def
  tools_len_def def_text_def str_int_def str_nat.simps sizes_ok_def dim_text_def
  data_text_def get_pointer_decl_def change_padding_def pads_inv_def Let_def
  in_int64_def wrap64_def int64_array_def

lemma format_float_scientific_examples:
  "format_float_scientific (Float64 False 1 0) = ''1.e+00''"
  "format_float_scientific (Float64 False 25 (- 1)) = ''2.5e-01''"
  "format_float_scientific (Float64 True 3 0) = ''-3.e+00''"
  "format_float_scientific (Float64 False 0 0) = ''0.e+00''"
  "format_float_scientific (Float64 False 3333333333333333 (- 1)) = ''3.333333333333333e-01''"
  "format_float_scientific (Float64 False 1 100) = ''1.e+100''"
  by (simp_all add: format_float_scientific_def exponent_text_def str_nat.simps)


subsection \<open>Declaration and the declared flag\<close>

text \<open>
  C1, as the code has it.  On a variable whose sizes are well formed, \<open>get_def\<close>
  returns the complete declaration whenever the flag \<open>decl_written\<close> is unset and no
  text whenever it is set.  \<open>get_def\<close> never sets the flag: after a call that returned
  the declaration the flag is still unset, and the next call returns the same
  declaration again.
\<close>

theorem get_def_leaves_flag:
  assumes "sizes_ok v"
  shows "(decl_written v \<longrightarrow> get_def fmt w v = (Inr None, v)) \<and>
         (\<not> decl_written v \<longrightarrow>
            fst (get_def fmt w v) = Inr (Some (def_text v (dim_text v) (data_text fmt w v))) \<and>
            \<not> decl_written (snd (get_def fmt w v)) \<and>
            fst (get_def fmt w (snd (get_def fmt w v))) = fst (get_def fmt w v))"
proof (cases "decl_written v")
  case True
  then show ?thesis by (simp add: get_def_written)
next
  case False
  let ?v' = "v\<lparr>dim_str := Some (dim_text v), data_str := Some (data_text fmt w v)\<rparr>"
  have first: "get_def fmt w v =
                 (Inr (Some (def_text v (dim_text v) (data_text fmt w v))), ?v')"
    using assms False by (rule get_def_fresh)
  have "sizes_ok ?v'" and "\<not> decl_written ?v'"
    using assms False by simp_all
  then have "get_def fmt w ?v' =
               (Inr (Some (def_text ?v' (dim_text ?v') (data_text fmt w ?v'))),
                ?v'\<lparr>dim_str := Some (dim_text ?v'), data_str := Some (data_text fmt w ?v')\<rparr>)"
    by (rule get_def_fresh)
  then have second: "fst (get_def fmt w ?v') =
                       Inr (Some (def_text v (dim_text v) (data_text fmt w v)))"
    by simp
  show ?thesis using False first second by simp
qed

theorem get_def_leaves_flag_witness:
  "sizes_ok (Variable_init ''float'' ''w'' (Some [3, 3]) 16 0 (None :: string ndarray option)) \<and>
   \<not> decl_written (Variable_init ''float'' ''w'' (Some [3, 3]) 16 0 (None :: string ndarray option)) \<and>
   fst (get_def id True
          (Variable_init ''float'' ''w'' (Some [3, 3]) 16 0 (None :: string ndarray option))) =
     Inr (Some (''static float w_0 alignas(128) [3][3] = { 0 };'' @ newline)) \<and>
   fst (get_def id True (snd (get_def id True
          (Variable_init ''float'' ''w'' (Some [3, 3]) 16 0 (None :: string ndarray option))))) =
     Inr (Some (''static float w_0 alignas(128) [3][3] = { 0 };'' @ newline))"
proof -
  let ?v = "Variable_init ''float'' ''w'' (Some [3, 3]) 16 0 (None :: string ndarray option)"
  have ok: "sizes_ok ?v" by (simp add: var_eval)
  have fresh: "\<not> decl_written ?v" by (simp add: var_eval)
  have dt: "def_text ?v (dim_text ?v) (data_text id True ?v) =
                ''static float w_0 alignas(128) [3][3] = { 0 };'' @ newline"
    by (simp add: var_eval)
  from get_def_leaves_flag [OF ok, of id True] fresh dt ok show ?thesis by simp
qed

text \<open>
  C1 as stated fails: on a fresh variable the first \<open>get_def\<close> returns the declaration
  and leaves the flag unset, and the second call returns the declaration again.
\<close>

theorem get_def_twice_counterexample:
  "\<not> decl_written (snd (get_def id True
        (Variable_init ''float'' ''w'' (Some [3, 3]) 16 0 (None :: string ndarray option)))) \<and>
   fst (get_def id True (snd (get_def id True
        (Variable_init ''float'' ''w'' (Some [3, 3]) 16 0 (None :: string ndarray option))))) =
     Inr (Some (''static float w_0 alignas(128) [3][3] = { 0 };'' @ newline))"
  by (simp add: var_eval)


subsection \<open>Declared sizes\<close>

text \<open>
  Outside the signed 64-bit range the sizes are not sums: the padded size wraps around,
  and a padding amount outside the range raises.
\<close>

lemma get_dim_str_wraps:
  "get_dim_str (snd (change_padding [[1, 0]]
      (Variable_init ''float'' ''w'' (Some [9223372036854775807]) 0 0
         (None :: string ndarray option)))) =
     Inr ''[-9223372036854775808]''"
  by (simp add: var_eval)

lemma get_dim_str_overflows:
  "get_dim_str (snd (change_padding [[9223372036854775808, 0]]
      (Variable_init ''float'' ''w'' (Some [3]) 0 0 (None :: string ndarray option)))) =
     Inl OverflowError"
  by (simp add: var_eval)

text \<open>
  C6.  For an array variable with dimension sizes \<open>D\<close> and, on each axis, the padding
  pair \<open>(lo, hi)\<close> listed in \<open>P\<close>, all within the signed 64-bit range as the padded sizes
  are, the declaration that \<open>get_def\<close> returns declares on every axis \<open>i\<close> the size
  \<open>D ! i + lo + hi\<close>, one bracket for each axis in order.
\<close>

theorem get_def_declares_padded_sizes:
  assumes "dim v = Some D"
    and "pads v = map (\<lambda>(lo, hi). [lo, hi]) P"
    and "length P = length D"
    and "\<forall>i < length D. in_int64 (D ! i) \<and> in_int64 (fst (P ! i)) \<and> in_int64 (snd (P ! i)) \<and>
                          in_int64 (D ! i + fst (P ! i) + snd (P ! i))"
    and "\<not> decl_written v"
  shows "fst (get_def fmt w v) =
           Inr (Some (''static '' @ type v @ '' '' @ name v @ ''_'' @ str_int (index v) @ '' '' @
                      alignment v @ '' '' @
                      concat (map (\<lambda>i. ''['' @ str_int (D ! i + fst (P ! i) + snd (P ! i)) @ '']'')
                                  [0..<length D]) @
                      '' = { '' @ data_text fmt w v @ '' };'' @ newline))"
proof -
  have "sizes_ok v" using assms(1,2,3,4) by (rule pairs_sizes_ok)
  then have "fst (get_def fmt w v) = Inr (Some (def_text v (dim_text v) (data_text fmt w v)))"
    using assms(5) by (simp add: get_def_fresh)
  then show ?thesis
    by (simp add: pairs_dim_text [OF assms(1,2,3)] def_text_def)
qed

theorem get_def_declares_padded_sizes_witness:
  "dim (snd (change_padding [[1, 1], [0, 2]]
        (Variable_init ''float'' ''w'' (Some [3, 3]) 16 0 (None :: string ndarray option)))) =
     Some [3, 3] \<and>
   pads (snd (change_padding [[1, 1], [0, 2]]
        (Variable_init ''float'' ''w'' (Some [3, 3]) 16 0 (None :: string ndarray option)))) =
     map (\<lambda>(lo, hi). [lo, hi]) [(1, 1), (0, 2)] \<and>
   in_int64 3 \<and> in_int64 0 \<and> in_int64 1 \<and> in_int64 2 \<and> in_int64 (3 + 1 + 1) \<and>
   in_int64 (3 + 0 + 2) \<and>
   fst (get_def id True (snd (change_padding [[1, 1], [0, 2]]
        (Variable_init ''float'' ''w'' (Some [3, 3]) 16 0 (None :: string ndarray option))))) =
     Inr (Some (''static float w_0 alignas(128) [5][5] = { 0 };'' @ newline))"
proof -
  let ?v = "snd (change_padding [[1, 1], [0, 2]]
              (Variable_init ''float'' ''w'' (Some [3, 3]) 16 0 (None :: string ndarray option)))"
  have d: "dim ?v = Some [3, 3]" by (simp add: var_eval)
  have p: "pads ?v = map (\<lambda>(lo, hi). [lo, hi]) [(1, 1), (0, 2)]" by (simp add: var_eval)
  have l: "length [(1, 1), (0, 2 :: int)] = length [3, 3 :: int]" by simp
  have r: "in_int64 3" "in_int64 0" "in_int64 1" "in_int64 2" "in_int64 (3 + 1 + 1)"
          "in_int64 (3 + 0 + 2)"
    by (simp_all add: in_int64_def)
  have b: "\<forall>i < length [3, 3 :: int].
             in_int64 ([3, 3] ! i) \<and> in_int64 (fst ([(1, 1), (0, 2)] ! i)) \<and>
             in_int64 (snd ([(1, 1), (0, 2)] ! i)) \<and>
             in_int64 ([3, 3] ! i + fst ([(1, 1), (0, 2)] ! i) + snd ([(1, 1), (0, 2)] ! i))"
    by (simp add: in_int64_def less_Suc_eq nth_Cons')
  have f: "\<not> decl_written ?v" by (simp add: var_eval)
  have t: "type ?v = ''float''" "name ?v = ''w''" "index ?v = 0"
          "alignment ?v = ''alignas(128)''" "data_text id True ?v = ''0''"
    by (simp_all add: var_eval)
  have u: "[0..<length [3, 3 :: int]] = [0, 1]" by (simp add: upt_rec)
  have s: "str_int 0 = ''0''" "str_int 5 = ''5''" by (simp_all add: str_int_def str_nat.simps)
  have g: "fst (get_def id True ?v) =
             Inr (Some (''static float w_0 alignas(128) [5][5] = { 0 };'' @ newline))"
    using get_def_declares_padded_sizes [OF d p l b f, of id True]
    unfolding t u by (simp add: s)
  from d p r g show ?thesis by blast
qed


subsection \<open>The initializer\<close>





subsection \<open>Padding arity\<close>

text \<open>
  C8.  \<open>change_padding\<close> fails exactly when the length of the new padding differs from
  the dimension count of the variable, and a failed call leaves the variable, so also
  its padding, as it was.  The padding has one entry for each dimension (none for a
  scalar) after construction, after every successful \<open>change_padding\<close>, and after any
  run of calls on a constructed variable.
\<close>

theorem change_padding_arity:
  "(isl (fst (change_padding ps v)) \<longleftrightarrow> length ps \<noteq> tools_len (dim v)) \<and>
   (isl (fst (change_padding ps v)) \<longrightarrow> snd (change_padding ps v) = v) \<and>
   (\<not> isl (fst (change_padding ps v)) \<longrightarrow>
      pads (snd (change_padding ps v)) = ps \<and> pads_inv (snd (change_padding ps v))) \<and>
   pads_inv (Variable_init ty nm d algn idx idata) \<and>
   pads_inv (calls fmt cs (Variable_init ty nm d algn idx idata))"
proof -
  have "pads_inv (calls fmt cs (Variable_init ty nm d algn idx idata))"
    using init_pads_inv by (rule calls_pads_inv)
  then show ?thesis
    by (simp add: change_padding_def pads_inv_def init_pads_inv [unfolded pads_inv_def])
qed

theorem change_padding_arity_witness:
  "isl (fst (change_padding [[1, 1]]
         (Variable_init ''float'' ''w'' (Some [3, 3]) 16 0 (None :: string ndarray option)))) \<and>
   pads (snd (change_padding [[1, 1]]
         (Variable_init ''float'' ''w'' (Some [3, 3]) 16 0 (None :: string ndarray option)))) =
     [[0, 0], [0, 0]] \<and>
   \<not> isl (fst (change_padding [[1, 1], [0, 2]]
         (Variable_init ''float'' ''w'' (Some [3, 3]) 16 0 (None :: string ndarray option)))) \<and>
   pads (snd (change_padding [[1, 1], [0, 2]]
         (Variable_init ''float'' ''w'' (Some [3, 3]) 16 0 (None :: string ndarray option)))) =
     [[1, 1], [0, 2]] \<and>
   pads_inv (calls id [ChangePadding [[1, 1], [0, 2]], GetDef True, ChangePadding []]
         (Variable_init ''float'' ''w'' (Some [3, 3]) 16 0 (None :: string ndarray option)))"
proof -
  let ?v = "Variable_init ''float'' ''w'' (Some [3, 3]) 16 0 (None :: string ndarray option)"
  have a: "length [[1, 1 :: int]] \<noteq> tools_len (dim ?v)"
          "length [[1, 1], [0, 2 :: int]] = tools_len (dim ?v)"
          "pads ?v = [[0, 0], [0, 0]]"
    by (simp_all add: var_eval numeral_2_eq_2)
  from change_padding_arity [of "[[1, 1]]" ?v "''float''" "''w''" "Some [3, 3]" 16 0 None id
         "[ChangePadding [[1, 1], [0, 2]], GetDef True, ChangePadding []]"]
       change_padding_arity [of "[[1, 1], [0, 2]]" ?v "''float''" "''w''" "Some [3, 3]" 16 0 None id
         "[]"]
       a
  show ?thesis by simp
qed


subsection \<open>Alignment\<close>

text \<open>
  C9.  After \<open>set_alignment\<close> with a positive byte count \<open>b\<close>, the alignment text of the
  variable is \<open>alignas\<close> of 8 times \<open>b\<close> (128 for 16 bytes), and both declaration renders,
  \<open>get_pointer_decl\<close> and \<open>get_def\<close> where it returns a declaration, carry it; after
  \<open>set_alignment\<close> with zero the alignment text is empty and the renders carry no
  directive.
\<close>

theorem set_alignment_directive:
  "(0 < b \<longrightarrow>
      alignment (set_alignment b v) = ''alignas('' @ str_int (8 * b) @ '')'' \<and>
      get_pointer_decl (set_alignment b v) =
        type v @ '' *'' @ name v @ ''_'' @ str_int (index v) @
        '' alignas('' @ str_int (8 * b) @ '');'' @ newline \<and>
      (sizes_ok v \<and> \<not> decl_written v \<longrightarrow>
         fst (get_def fmt w (set_alignment b v)) =
           Inr (Some (''static '' @ type v @ '' '' @ name v @ ''_'' @ str_int (index v) @
                      '' alignas('' @ str_int (8 * b) @ '') '' @ dim_text v @
                      '' = { '' @ data_text fmt w v @ '' };'' @ newline)))) \<and>
   alignment (set_alignment 0 v) = [] \<and>
   get_pointer_decl (set_alignment 0 v) =
     type v @ '' *'' @ name v @ ''_'' @ str_int (index v) @ '' ;'' @ newline \<and>
   (sizes_ok v \<and> \<not> decl_written v \<longrightarrow>
      fst (get_def fmt w (set_alignment 0 v)) =
        Inr (Some (''static '' @ type v @ '' '' @ name v @ ''_'' @ str_int (index v) @
                   ''  '' @ dim_text v @ '' = { '' @ data_text fmt w v @ '' };'' @ newline))) \<and>
   alignment (set_alignment 16 v) = ''alignas(128)''"
proof -
  have g: "fst (get_def fmt w (v\<lparr>alignment := a\<rparr>)) =
             Inr (Some (def_text (v\<lparr>alignment := a\<rparr>) (dim_text v) (data_text fmt w v)))"
    if "sizes_ok v" and "\<not> decl_written v" for a
    using that by (simp add: get_def_fresh)
  have s: "str_int 128 = ''128''" by (simp add: str_int_def str_nat.simps)
  show ?thesis
    by (simp add: set_alignment_def get_pointer_decl_def g def_text_def s)
qed

theorem set_alignment_directive_witness:
  "(0 :: int) < 16 \<and>
   sizes_ok (Variable_init ''float'' ''w'' (Some [3, 3]) 0 0 (None :: string ndarray option)) \<and>
   \<not> decl_written (Variable_init ''float'' ''w'' (Some [3, 3]) 0 0 (None :: string ndarray option)) \<and>
   get_pointer_decl (set_alignment 16
       (Variable_init ''float'' ''w'' (Some [3, 3]) 0 0 (None :: string ndarray option))) =
     ''float *w_0 alignas(128);'' @ newline \<and>
   fst (get_def id True (set_alignment 16
       (Variable_init ''float'' ''w'' (Some [3, 3]) 0 0 (None :: string ndarray option)))) =
     Inr (Some (''static float w_0 alignas(128) [3][3] = { 0 };'' @ newline)) \<and>
   fst (get_def id True (set_alignment 0
       (Variable_init ''float'' ''w'' (Some [3, 3]) 0 0 (None :: string ndarray option)))) =
     Inr (Some (''static float w_0  [3][3] = { 0 };'' @ newline))"
proof -
  let ?v = "Variable_init ''float'' ''w'' (Some [3, 3]) 0 0 (None :: string ndarray option)"
  have ok: "sizes_ok ?v" by (simp add: var_eval)
  have f: "\<not> decl_written ?v" by (simp add: var_eval)
  have t: "type ?v = ''float''" "name ?v = ''w''" "index ?v = 0"
          "dim_text ?v = ''[3][3]''" "data_text id True ?v = ''0''"
    by (simp_all add: var_eval)
  have s: "str_int 0 = ''0''" "str_int 128 = ''128''"
    by (simp_all add: str_int_def str_nat.simps)
  from set_alignment_directive [of 16 ?v id True] ok f show ?thesis
    unfolding t by (simp add: s)
qed


subsection \<open>The pointer declaration\<close>

text \<open>
  C10.  \<open>get_pointer_decl\<close> returns the full pointer declaration (element type, name
  with the uniqueness index, alignment text) also when \<open>decl_written\<close> is set, and the
  call leaves the flag as it was; \<open>get_def\<close> returns no text on the same variable.
\<close>

theorem get_pointer_decl_not_guarded:
  "get_pointer_decl (v\<lparr>decl_written := True\<rparr>) =
     type v @ '' *'' @ name v @ ''_'' @ str_int (index v) @ '' '' @ alignment v @ '';'' @ newline \<and>
   get_pointer_decl v = get_pointer_decl (v\<lparr>decl_written := True\<rparr>) \<and>
   decl_written (call fmt GetPointerDecl v) = decl_written v \<and>
   get_pointer_decl (call fmt GetPointerDecl v) = get_pointer_decl v \<and>
   fst (get_def fmt w (v\<lparr>decl_written := True\<rparr>)) = Inr None"
  by (simp add: get_pointer_decl_def get_def_def)


section \<open>Properties of templates and rendering\<close>

lemma emit_Inr [simp]: "emit s (Inr t) = Inr (s @ t)"
  by (simp add: emit_def)

lemma emit_Inl [simp]: "emit s (Inl e) = Inl e"
  by (simp add: emit_def)

lemma cons_piece_Some [simp]: "(cons_piece p r = Some ps) = (\<exists>qs. r = Some qs \<and> ps = p # qs)"
  by (cases r) (auto simp: cons_piece_def)

lemma placeholders_simps [simp]:
  "placeholders [] = {}"
  "placeholders (Lit c # ps) = placeholders ps"
  "placeholders (Field f # ps) = insert f (placeholders ps)"
  by (auto simp: placeholders_def)

lemma format_from_pieces:
  "pieces_from st s = Some ps \<Longrightarrow> format_from get st s = render_pieces get ps"
proof (induction get st s arbitrary: ps rule: format_from.induct)
  case (1 get)
  then show ?case by simp
next
  case (2 get f)
  then show ?case by simp
next
  case (3 get c cs)
  show ?case
  proof (cases "c = CHR ''{''")
    case True
    note open_brace = this
    show ?thesis
    proof (cases cs)
      case Nil
      with "3.prems" open_brace show ?thesis by simp
    next
      case (Cons d ds)
      show ?thesis
      proof (cases "d = CHR ''{''")
        case True
        from "3.prems" open_brace Cons True obtain qs where
          q: "pieces_from None ds = Some qs" "ps = Lit c # qs" by auto
        from "3.IH"(1) [OF open_brace Cons True q(1)]
        have "format_from get None ds = render_pieces get qs" .
        with open_brace Cons True q(2) show ?thesis by simp
      next
        case False
        from "3.prems" open_brace Cons False have "pieces_from (Some []) cs = Some ps" by simp
        from "3.IH"(2) [OF open_brace Cons False this]
        have "format_from get (Some []) cs = render_pieces get ps" .
        with open_brace Cons False show ?thesis by simp
      qed
    qed
  next
    case False
    note not_open = this
    show ?thesis
    proof (cases "c = CHR ''}''")
      case True
      show ?thesis
      proof (cases cs)
        case Nil
        with "3.prems" not_open True show ?thesis by simp
      next
        case (Cons d ds)
        show ?thesis
        proof (cases "d = CHR ''}''")
          case d: True
          from "3.prems" not_open True Cons d obtain qs where
            q: "pieces_from None ds = Some qs" "ps = Lit c # qs" by auto
          from "3.IH"(3) [OF not_open True Cons d q(1)]
          have "format_from get None ds = render_pieces get qs" .
          with not_open True Cons d q(2) show ?thesis by simp
        next
          case d: False
          with "3.prems" not_open True Cons show ?thesis by simp
        qed
      qed
    next
      case False
      from "3.prems" not_open False obtain qs where
        q: "pieces_from None cs = Some qs" "ps = Lit c # qs" by auto
      from "3.IH"(4) [OF not_open False q(1)]
      have "format_from get None cs = render_pieces get qs" .
      with not_open False q(2) show ?thesis by simp
    qed
  qed
next
  case (4 get f c cs)
  show ?case
  proof (cases "c = CHR ''}''")
    case True
    from "4.prems" True obtain qs where
      q: "pieces_from None cs = Some qs" "ps = Field f # qs"
         "plain_name f" "\<not> list_all is_digit f"
      by (auto split: if_splits)
    have fld: "field get f = get f" using q(3,4) by (simp add: field_def)
    show ?thesis
    proof (cases "get f")
      case (Inl e)
      with True fld q(2) show ?thesis by simp
    next
      case (Inr t)
      with fld have "field get f = Inr t" by simp
      from "4.IH"(1) [OF True this q(1)]
      have "format_from get None cs = render_pieces get qs" .
      with True fld Inr q(2) show ?thesis by simp
    qed
  next
    case False
    from "4.prems" False have "pieces_from (Some (f @ [c])) cs = Some ps" by simp
    from "4.IH"(2) [OF False this]
    have "format_from get (Some (f @ [c])) cs = render_pieces get ps" .
    with False show ?thesis by simp
  qed
qed

lemma render_pieces_filled:
  "\<forall>f \<in> placeholders ps. get f = Inr (child f) \<Longrightarrow> render_pieces get ps = Inr (fill child ps)"
proof (induction ps)
  case Nil
  then show ?case by simp
next
  case (Cons p ps)
  then show ?case by (cases p) simp_all
qed

lemma render_pieces_missing:
  assumes "\<forall>f \<in> placeholders ps. get f = Inr (child f) \<or> get f = Inl (KeyError f)"
    and "\<exists>f \<in> placeholders ps. get f = Inl (KeyError f)"
  shows "\<exists>f \<in> placeholders ps. get f = Inl (KeyError f) \<and> render_pieces get ps = Inl (KeyError f)"
  using assms
proof (induction ps)
  case Nil
  then show ?case by simp
next
  case (Cons p ps)
  show ?case
  proof (cases p)
    case (Lit c)
    with Cons show ?thesis by auto
  next
    case (Field f)
    show ?thesis
    proof (cases "get f")
      case (Inl e)
      with Cons.prems(1) Field have "get f = Inl (KeyError f)" by auto
      with Field show ?thesis by simp
    next
      case (Inr t)
      with Cons.prems Field have "\<exists>g \<in> placeholders ps. get g = Inl (KeyError g)" by auto
      moreover from Cons.prems(1) Field
      have "\<forall>g \<in> placeholders ps. get g = Inr (child g) \<or> get g = Inl (KeyError g)" by simp
      ultimately obtain g where "g \<in> placeholders ps" "get g = Inl (KeyError g)"
        "render_pieces get ps = Inl (KeyError g)" using Cons.IH by blast
      with Field Inr show ?thesis by auto
    qed
  qed
qed

lemma bound_None: "(bound es f = None) = (f \<notin> ename ` set es)"
  by (auto simp: bound_def find_None_iff)

subsection \<open>Rendering an expression\<close>

text \<open>
  C2, as the code has it.  For an \<open>Expression\<close> whose template reads as the pieces \<open>ps\<close>
  and whose children under the placeholders render to the texts \<open>child\<close>: if every
  placeholder has a bound edge, rendering returns the template with each placeholder
  replaced by the text of the bound child, whatever other edges are bound (an edge whose
  name is no placeholder is ignored and its child is not rendered); if some placeholder
  has no bound edge, rendering fails with the \<open>KeyError\<close> of such a placeholder.
\<close>

theorem expression_render:
  assumes "i < length h" and "kind (h ! i) = Expression snippet"
    and "pieces snippet = Some ps"
    and "\<forall>f e. f \<in> placeholders ps \<and> bound (edges (h ! i)) f = Some e \<longrightarrow>
           str_node limit h (target e) = Inr (child f)"
  shows "(placeholders ps \<subseteq> ename ` set (edges (h ! i)) \<longrightarrow>
            str_node (Suc limit) h i = Inr (fill child ps)) \<and>
         (\<not> placeholders ps \<subseteq> ename ` set (edges (h ! i)) \<longrightarrow>
            (\<exists>f \<in> placeholders ps. f \<notin> ename ` set (edges (h ! i)) \<and>
               str_node (Suc limit) h i = Inl (KeyError f)))"
proof -
  let ?es = "edges (h ! i)"
  let ?get = "\<lambda>nm. case find (\<lambda>e. ename e = nm) ?es of
                      None \<Rightarrow> Inl (KeyError nm)
                    | Some e \<Rightarrow> str_node limit h (target e)"
  have str: "str_node (Suc limit) h i = render_pieces ?get ps"
    using assms(1,2,3) by (simp add: str_node.simps format_def pieces_def format_from_pieces)
  have get_bound: "?get f = Inr (child f)"
    if "f \<in> placeholders ps" "f \<in> ename ` set ?es" for f
  proof -
    from that(2) obtain e where "bound ?es f = Some e"
      using bound_None [of ?es f] by (cases "bound ?es f") auto
    with assms(4) that(1) show ?thesis by (auto simp: bound_def)
  qed
  have get_unbound: "?get f = Inl (KeyError f)" if "f \<notin> ename ` set ?es" for f
    using that bound_None [of ?es f] by (simp add: bound_def)
  show ?thesis
  proof (intro conjI impI)
    assume "placeholders ps \<subseteq> ename ` set ?es"
    then have "\<forall>f \<in> placeholders ps. ?get f = Inr (child f)"
      using get_bound by blast
    then show "str_node (Suc limit) h i = Inr (fill child ps)"
      unfolding str by (rule render_pieces_filled)
  next
    assume "\<not> placeholders ps \<subseteq> ename ` set ?es"
    then obtain f0 where f0: "f0 \<in> placeholders ps" "f0 \<notin> ename ` set ?es" by blast
    have a: "\<forall>f \<in> placeholders ps. ?get f = Inr (child f) \<or> ?get f = Inl (KeyError f)"
      using get_bound get_unbound by blast
    have b: "\<exists>f \<in> placeholders ps. ?get f = Inl (KeyError f)"
      using f0 get_unbound by blast
    from render_pieces_missing [OF a b] obtain f where
      f: "f \<in> placeholders ps" "?get f = Inl (KeyError f)"
         "render_pieces ?get ps = Inl (KeyError f)" by blast
    have "f \<notin> ename ` set ?es"
    proof
      assume "f \<in> ename ` set ?es"
      with f(1) have "?get f = Inr (child f)" by (rule get_bound)
      with f(2) show False by simp
    qed
    with f(1,3) show "\<exists>f \<in> placeholders ps. f \<notin> ename ` set ?es \<and>
                         str_node (Suc limit) h i = Inl (KeyError f)"
      unfolding str by blast
  qed
qed


theorem expression_render_witness:
  "pieces ''{a} + {b}'' =
     Some [Field ''a'', Lit CHR '' '', Lit CHR ''+'', Lit CHR '' '', Field ''b''] \<and>
   placeholders [Field ''a'', Lit CHR '' '', Lit CHR ''+'', Lit CHR '' '', Field ''b''] \<subseteq>
     ename ` set (edges (sum_heap ! 2)) \<and>
   str_node 2 sum_heap 2 = Inr ''1 + 2'' \<and>
   pieces ''{a} + {c}'' =
     Some [Field ''a'', Lit CHR '' '', Lit CHR ''+'', Lit CHR '' '', Field ''c''] \<and>
   \<not> placeholders [Field ''a'', Lit CHR '' '', Lit CHR ''+'', Lit CHR '' '', Field ''c''] \<subseteq>
     ename ` set (edges (missing_heap ! 2)) \<and>
   str_node 2 missing_heap 2 = Inl (KeyError ''c'')"
proof -
  let ?ps = "[Field ''a'', Lit CHR '' '', Lit CHR ''+'', Lit CHR '' '', Field ''b'']"
  let ?qs = "[Field ''a'', Lit CHR '' '', Lit CHR ''+'', Lit CHR '' '', Field ''c'']"
  let ?child = "\<lambda>f. if f = ''a'' then ''1'' else ''2''"
  have n: "2 < length sum_heap" "kind (sum_heap ! 2) = Expression ''{a} + {b}''"
          "2 < length missing_heap" "kind (missing_heap ! 2) = Expression ''{a} + {c}''"
    by code_simp+
  have p: "pieces ''{a} + {b}'' = Some ?ps" "pieces ''{a} + {c}'' = Some ?qs"
    by code_simp+
  have es: "edges (sum_heap ! 2) =
              [\<lparr>ename = ''a'', n_type = ''m_expr'', target = 0\<rparr>,
               \<lparr>ename = ''b'', n_type = ''m_expr'', target = 1\<rparr>]"
           "edges (missing_heap ! 2) =
              [\<lparr>ename = ''a'', n_type = ''m_expr'', target = 0\<rparr>,
               \<lparr>ename = ''b'', n_type = ''m_expr'', target = 1\<rparr>]"
    by code_simp+
  have c: "str_node 1 sum_heap 0 = Inr ''1''" "str_node 1 sum_heap 1 = Inr ''2''"
          "str_node 1 missing_heap 0 = Inr ''1''"
    by code_simp+
  have k: "\<forall>f e. f \<in> placeholders ?ps \<and> bound (edges (sum_heap ! 2)) f = Some e \<longrightarrow>
             str_node 1 sum_heap (target e) = Inr (?child f)"
    unfolding es using c by (auto simp: bound_def)
  have k': "\<forall>f e. f \<in> placeholders ?qs \<and> bound (edges (missing_heap ! 2)) f = Some e \<longrightarrow>
             str_node 1 missing_heap (target e) = Inr (?child f)"
    unfolding es using c by (auto simp: bound_def)
  have s: "placeholders ?ps \<subseteq> ename ` set (edges (sum_heap ! 2))"
          "\<not> placeholders ?qs \<subseteq> ename ` set (edges (missing_heap ! 2))"
    unfolding es by simp_all
  have "str_node (Suc 1) sum_heap 2 = Inr (fill ?child ?ps)"
    using expression_render [OF n(1,2) p(1) k] s(1) by blast
  then have r1: "str_node 2 sum_heap 2 = Inr ''1 + 2''"
    by (simp add: numeral_2_eq_2)
  have "\<exists>f \<in> placeholders ?qs. f \<notin> ename ` set (edges (missing_heap ! 2)) \<and>
          str_node (Suc 1) missing_heap 2 = Inl (KeyError f)"
    using expression_render [OF n(3,4) p(2) k'] s(2) by blast
  then have "str_node (Suc 1) missing_heap 2 = Inl (KeyError ''c'')"
    unfolding es by auto
  then have r2: "str_node 2 missing_heap 2 = Inl (KeyError ''c'')"
    by (simp add: numeral_2_eq_2)
  from r1 r2 s p show ?thesis by blast
qed

text \<open>
  C2 as stated fails: the expression \<open>{a}\<close> with edges \<open>a\<close> and \<open>b\<close> bound renders,
  although the name \<open>b\<close> does not occur in the template.
\<close>

theorem unused_binding_counterexample:
  "kind (spare_heap ! 2) = Expression ''{a}'' \<and>
   pieces ''{a}'' = Some [Field ''a''] \<and>
   map ename (edges (spare_heap ! 2)) = [''a'', ''b''] \<and>
   str_node 2 spare_heap 2 = Inr ''1''"
  by code_simp


subsection \<open>Rendering an indexed variable\<close>

lemma mapM_Inr:
  "(\<And>x. x \<in> set xs \<Longrightarrow> f x = Inr (g x)) \<Longrightarrow> mapM f xs = Inr (map g xs)"
  by (induction xs) simp_all

lemma list_index_nth:
  "distinct xs \<Longrightarrow> j < length xs \<Longrightarrow> list_index xs (xs ! j) = j"
proof (induction xs arbitrary: j)
  case Nil
  then show ?case by simp
next
  case (Cons x xs)
  show ?case
  proof (cases j)
    case 0
    then show ?thesis by (simp add: list_index_def)
  next
    case (Suc k)
    with Cons.prems have "xs ! k \<noteq> x" by auto
    moreover from Cons Suc have "list_index xs (xs ! k) = k" by simp
    ultimately show ?thesis using Suc by (simp add: list_index_def)
  qed
qed

text \<open>
  Where the index nodes are pairwise different objects, every subscript carries the
  leading pad of its own axis.
\<close>

lemma indexed_variable_render_distinct:
  assumes node: "i < length h" "kind (h ! i) = IndexedVariable True"
    and var: "get_node (edges (h ! i)) ''var'' = Inr var" "var < length h"
             "kind (h ! var) = Variable v"
    and idx: "get_node_by_type (edges (h ! i)) ''index'' = ns" "distinct ns"
    and pad: "length ns \<le> length (pads v)" "\<forall>j < length ns. pads v ! j \<noteq> []"
    and kids: "\<forall>j < length ns. str_node limit h (ns ! j) = Inr (tx j)"
    and lim: "0 < limit"
  shows "str_node (Suc limit) h i =
           Inr (Variable_str v @
                concat (map (\<lambda>j. ''['' @ tx j @ '' + '' @ str_int (hd (pads v ! j)) @ '']'')
                            [0..<length ns]))"
proof -
  let ?sub = "\<lambda>j. case str_node limit h j of
                     Inl e \<Rightarrow> Inl e
                   | Inr t \<Rightarrow> subscript True (kind (h ! var)) ns j t"
  let ?g = "\<lambda>x. ''['' @ tx (list_index ns x) @ '' + '' @
                 str_int (hd (pads v ! list_index ns x)) @ '']''"
  from lim obtain l where l: "limit = Suc l" by (cases limit) auto
  have s0: "str_node limit h var = Inr (Variable_str v)"
    using var(2,3) by (simp add: l str_node.simps)
  have sub: "?sub x = Inr (?g x)" if "x \<in> set ns" for x
  proof -
    from that obtain j where j: "j < length ns" "x = ns ! j" by (auto simp: in_set_conv_nth)
    with idx(2) have k: "list_index ns x = j" by (simp add: list_index_nth)
    from j(1) pad have p: "j < length (pads v)" "pads v ! j \<noteq> []" by auto
    then have "item (pads v ! j) 0 = Inr (hd (pads v ! j))"
      by (cases "pads v ! j") (simp_all add: item_def)
    with j kids p(1) k show ?thesis
      by (simp add: subscript_def var(3) item_def)
  qed
  have "mapM ?sub ns = Inr (map ?g ns)" using sub by (rule mapM_Inr)
  moreover have "map ?g ns =
                   map (\<lambda>j. ''['' @ tx j @ '' + '' @ str_int (hd (pads v ! j)) @ '']'')
                       [0..<length ns]"
    using idx(2) by (intro nth_equalityI) (simp_all add: list_index_nth)
  ultimately show ?thesis
    using node var(1) s0 idx(1) by (simp add: str_node.simps)
qed

text \<open>
  C3 at a failing input.  The matrix \<open>x\<close> has the leading pads 1 on axis 0 and 2 on
  axis 1.  With the same index node \<open>i\<close> attached at both axes and offset compensation
  on, \<open>IndexedVariable.__str__\<close> looks the axis up with \<open>n.index(i)\<close>, which is 0 both
  times, and renders the second subscript with the pad of axis 0: \<open>x_0[i_1 + 1][i_1 + 1]\<close>
  where the claim gives \<open>x_0[i_1 + 1][i_1 + 2]\<close>.
\<close>

theorem repeated_index_render:
  "kind (diag_heap ! 0) =
     Variable (snd (change_padding [[1, 1], [2, 2]]
                 (Variable_init ''float'' ''x'' (Some [4, 4]) 0 0 None))) \<and>
   kind (diag_heap ! 2) = IndexedVariable True \<and>
   get_node_by_type (edges (diag_heap ! 2)) ''index'' = [1, 1] \<and>
   str_node 1 diag_heap 1 = Inr ''i_1'' \<and>
   str_node 2 diag_heap 2 = Inr ''x_0[i_1 + 1][i_1 + 1]''"
  by code_simp

section \<open>Properties of the traversal\<close>


subsection \<open>The enumerated visits\<close>

lemma post_walks_nonempty: "[] \<notin> set (post_walks n h es)"
  by (induction n h es rule: post_walks.induct) auto

lemma pre_walks_nonempty: "[] \<notin> set (pre_walks n h es)"
  by (induction n h es rule: pre_walks.induct) auto

lemma is_path_chain: "is_path h i p = chain h (edges_of h i) p"
  by (cases p) (simp_all add: chain_def)

lemma chain_Nil [simp]: "chain h es []"
  by (simp add: chain_def)

lemma chain_Cons [simp]:
  "chain h es (e # q) = (e \<in> set es \<and> chain h (edges_of h (target e)) q)"
  by (simp add: chain_def is_path_chain)

lemma set_pre_walks:
  "fits n h es \<Longrightarrow> set (pre_walks n h es) = {p. p \<noteq> [] \<and> chain h es p}"
proof (induction n h es rule: fits.induct)
  case (1 limit h)
  show ?case
  proof -
    have "\<And>p. chain h [] p \<Longrightarrow> p = []" by (case_tac p) simp_all
    then show ?thesis by auto
  qed
next
  case (2 h e es)
  then show ?case by simp
next
  case (3 l h e es)
  let ?E = "edges_of h (target e)"
  from "3.prems" have f1: "fits l h ?E" and f2: "fits (Suc l) h es" by simp_all
  note ih1 = "3.IH"(1) [OF f1] and ih2 = "3.IH"(2) [OF f2]
  show ?case
  proof (intro set_eqI iffI)
    fix p assume "p \<in> set (pre_walks (Suc l) h (e # es))"
    then consider "p = [e]" | q where "p = e # q" "q \<in> set (pre_walks l h ?E)"
      | "p \<in> set (pre_walks (Suc l) h es)" by auto
    then show "p \<in> {p. p \<noteq> [] \<and> chain h (e # es) p}"
    proof cases
      case 1
      then show ?thesis by simp
    next
      case 2
      with ih1 show ?thesis by simp
    next
      case 3
      with ih2 obtain x q where "p = x # q" "chain h es p" by (cases p) auto
      then show ?thesis by auto
    qed
  next
    fix p assume "p \<in> {p. p \<noteq> [] \<and> chain h (e # es) p}"
    then obtain x q where p: "p = x # q" "x \<in> set (e # es)" "chain h (edges_of h (target x)) q"
      by (cases p) auto
    show "p \<in> set (pre_walks (Suc l) h (e # es))"
    proof (cases "x = e")
      case True
      show ?thesis
      proof (cases "q = []")
        case True
        with p \<open>x = e\<close> show ?thesis by simp
      next
        case False
        with p True ih1 have "q \<in> set (pre_walks l h ?E)" by simp
        with p True show ?thesis by simp
      qed
    next
      case False
      with p have "chain h es p" by simp
      with p ih2 have "p \<in> set (pre_walks (Suc l) h es)" by simp
      then show ?thesis by simp
    qed
  qed
qed

lemma set_post_walks: "set (post_walks n h es) = set (pre_walks n h es)"
  by (induction n h es rule: pre_walks.induct) auto

lemma pre_walks_hd: "p \<in> set (pre_walks n h es) \<Longrightarrow> hd p \<in> set es"
  by (induction n h es rule: pre_walks.induct) auto

lemma names_unique_edges_of: "names_unique h \<Longrightarrow> distinct (edges_of h i)"
proof -
  assume "names_unique h"
  then have "i < length h \<Longrightarrow> distinct (map ename (edges (h ! i)))"
    by (simp add: names_unique_def list_all_length)
  then show ?thesis by (auto simp: edges_of_def distinct_map)
qed

lemma distinct_post_walks:
  "names_unique h \<Longrightarrow> distinct es \<Longrightarrow> distinct (post_walks n h es)"
proof (induction n h es rule: post_walks.induct)
  case (1 limit h)
  then show ?case by simp
next
  case (2 h e es)
  then show ?case by (auto simp: set_post_walks dest: pre_walks_hd)
next
  case (3 l h e es)
  let ?E = "edges_of h (target e)"
  have d1: "distinct (post_walks l h ?E)"
    using "3.IH"(1) "3.prems"(1) names_unique_edges_of by blast
  have d2: "distinct (post_walks (Suc l) h es)"
    using "3.IH"(2) "3.prems" by simp
  have "distinct (map ((#) e) (post_walks l h ?E))"
    using d1 by (simp add: distinct_map)
  moreover have "[e] \<notin> set (map ((#) e) (post_walks l h ?E))"
    using post_walks_nonempty [of l h ?E] by auto
  moreover have "p \<notin> set (post_walks (Suc l) h es)" if "hd p = e" for p
    using that "3.prems"(2) pre_walks_hd [of p "Suc l" h es] by (auto simp: set_post_walks)
  then have "[e] \<notin> set (post_walks (Suc l) h es)"
    "set (map ((#) e) (post_walks l h ?E)) \<inter> set (post_walks (Suc l) h es) = {}"
    by auto
  ultimately show ?case using d2 by simp
qed

lemma filter_last_Cons:
  "[] \<notin> set W \<Longrightarrow>
   filter (\<lambda>p. target (last p) = x) (map ((#) e) W) =
   map ((#) e) (filter (\<lambda>p. target (last p) = x) W)"
  by (induction W) auto

lemma traverse_edges_SearchNode:
  "fits n h es \<Longrightarrow>
   traverse_edges n h (SearchNode x) es \<lparr>result = r, cur_path_stack = st\<rparr> =
     Inr \<lparr>result = r @ map (\<lambda>p. st @ map target p)
                          (filter (\<lambda>p. target (last p) = x) (post_walks n h es)),
          cur_path_stack = st\<rparr>"
proof (induction n h es arbitrary: r st rule: fits.induct)
  case (1 limit h)
  then show ?case by simp
next
  case (2 h e es)
  then show ?case by simp
next
  case (3 l h e es)
  let ?E = "edges_of h (target e)"
  let ?W = "filter (\<lambda>p. target (last p) = x) (post_walks l h ?E)"
  let ?r1 = "r @ map (\<lambda>p. (st @ [target e]) @ map target p) ?W"
  let ?r2 = "if target e = x then ?r1 @ [st @ [target e]] else ?r1"
  from "3.prems" have f1: "fits l h ?E" and f2: "fits (Suc l) h es" by simp_all
  have p1: "pre_action (SearchNode x) e \<lparr>result = r, cur_path_stack = st\<rparr> =
              Inr (True, \<lparr>result = r, cur_path_stack = st @ [target e]\<rparr>)"
    by (simp add: SearchNode_def SearchNode_pre_action_def)
  have t1: "traverse_edges l h (SearchNode x) ?E \<lparr>result = r, cur_path_stack = st @ [target e]\<rparr> =
              Inr \<lparr>result = ?r1, cur_path_stack = st @ [target e]\<rparr>"
    by (rule "3.IH"(1) [OF f1])
  have p2: "post_action (SearchNode x) e \<lparr>result = ?r1, cur_path_stack = st @ [target e]\<rparr> =
              Inr \<lparr>result = ?r2, cur_path_stack = st\<rparr>"
    by (simp add: SearchNode_def SearchNode_post_action_def)
  have t2: "traverse_edges (Suc l) h (SearchNode x) es \<lparr>result = ?r2, cur_path_stack = st\<rparr> =
              Inr \<lparr>result = ?r2 @ map (\<lambda>p. st @ map target p)
                                     (filter (\<lambda>p. target (last p) = x) (post_walks (Suc l) h es)),
                   cur_path_stack = st\<rparr>"
    by (rule "3.IH"(2) [OF f2])
  have w: "filter (\<lambda>p. target (last p) = x) (post_walks (Suc l) h (e # es)) =
             map ((#) e) ?W @ (if target e = x then [[e]] else []) @
             filter (\<lambda>p. target (last p) = x) (post_walks (Suc l) h es)"
    by (simp add: filter_last_Cons post_walks_nonempty)
  have "traverse_edges (Suc l) h (SearchNode x) (e # es) \<lparr>result = r, cur_path_stack = st\<rparr> =
          Inr \<lparr>result = ?r2 @ map (\<lambda>p. st @ map target p)
                                 (filter (\<lambda>p. target (last p) = x) (post_walks (Suc l) h es)),
               cur_path_stack = st\<rparr>"
    using p1 t1 p2 t2 by (simp del: traverse_edges.simps(1) add: Let_def)
  then show ?case unfolding w by (simp add: comp_def)
qed

subsection \<open>Cycle-free graphs\<close>

lemma end_of_Cons: "end_of i (e # p) = end_of (target e) p"
  by (simp add: end_of_def)

lemma is_path_append:
  "is_path h i (p @ q) = (is_path h i p \<and> is_path h (end_of i p) q)"
proof (induction p arbitrary: i)
  case Nil
  show ?case by (simp add: end_of_def)
next
  case (Cons e p)
  show ?case by (simp add: Cons.IH end_of_Cons)
qed

lemma cycle_free_no_return:
  assumes "cycle_free h" and "is_path h i p"
  shows "i \<notin> set (map target p)"
proof
  assume "i \<in> set (map target p)"
  then obtain x where x: "x \<in> set p" "target x = i" by auto
  then obtain p1 p2 where p: "p = p1 @ x # p2" by (auto dest: split_list)
  then have "p = (p1 @ [x]) @ p2" by simp
  with assms(2) have "is_path h i (p1 @ [x])" using is_path_append by metis
  moreover have "end_of i (p1 @ [x]) = i" using x(2) by (simp add: end_of_def)
  ultimately show False using assms(1) unfolding cycle_free_def by blast
qed

lemma cycle_free_distinct_nodes:
  "cycle_free h \<Longrightarrow> is_path h i p \<Longrightarrow> distinct (i # map target p)"
proof (induction p arbitrary: i)
  case Nil
  then show ?case by simp
next
  case (Cons e p)
  from Cons.prems have "i \<notin> set (map target (e # p))" by (rule cycle_free_no_return)
  moreover from Cons.prems(2) have "is_path h (target e) p" by simp
  with Cons.prems(1) have "distinct (target e # map target p)" by (rule Cons.IH)
  ultimately show ?case by simp
qed

lemma path_sources_in_heap:
  "is_path h i p \<Longrightarrow> p \<noteq> [] \<Longrightarrow> set (i # map target (butlast p)) \<subseteq> {..<length h}"
proof (induction p arbitrary: i)
  case Nil
  then show ?case by simp
next
  case (Cons e p)
  from Cons.prems(1) have "edges_of h i \<noteq> []" by auto
  then have i: "i < length h" by (auto simp: edges_of_def split: if_splits)
  show ?case
  proof (cases "p = []")
    case True
    with i show ?thesis by simp
  next
    case False
    from Cons.prems(1) have "is_path h (target e) p" by simp
    then have "set (target e # map target (butlast p)) \<subseteq> {..<length h}"
      using False by (rule Cons.IH)
    with i False show ?thesis by simp
  qed
qed

lemma cycle_free_path_length:
  assumes "cycle_free h" and "is_path h i p"
  shows "length p \<le> length h"
proof (cases "p = []")
  case True
  then show ?thesis by simp
next
  case False
  let ?src = "i # map target (butlast p)"
  have "distinct (i # map target p)" using assms by (rule cycle_free_distinct_nodes)
  then have "i \<notin> set (map target p)" and "distinct (map target p)" by simp_all
  then have "i \<notin> set (butlast (map target p))" and "distinct (butlast (map target p))"
    by (auto simp: distinct_butlast dest: in_set_butlastD)
  then have "distinct ?src" by (simp add: map_butlast)
  then have "length ?src = card (set ?src)" by (rule distinct_card [symmetric])
  also have "\<dots> \<le> card {..<length h}"
    using path_sources_in_heap [OF assms(2) False] by (intro card_mono) auto
  finally show ?thesis using False by simp
qed

lemma bounded_fits:
  "(\<forall>p. chain h es p \<longrightarrow> length p \<le> n) \<Longrightarrow> fits n h es"
proof (induction n h es rule: fits.induct)
  case (1 limit h)
  then show ?case by simp
next
  case (2 h e es)
  from "2.prems" have "chain h (e # es) [e] \<longrightarrow> length [e] \<le> 0" by blast
  then show ?case by simp
next
  case (3 l h e es)
  have "length q \<le> l" if "chain h (edges_of h (target e)) q" for q
  proof -
    from that have "chain h (e # es) (e # q)" by simp
    with "3.prems" have "length (e # q) \<le> Suc l" by blast
    then show ?thesis by simp
  qed
  then have "fits l h (edges_of h (target e))" using "3.IH"(1) by blast
  moreover have "length p \<le> Suc l" if "chain h es p" for p
  proof -
    from that have "chain h (e # es) p" by (cases p) auto
    with "3.prems" show ?thesis by blast
  qed
  then have "fits (Suc l) h es" using "3.IH"(2) by blast
  ultimately show ?case by simp
qed

lemma cycle_free_fits:
  assumes "cycle_free h" and "length h \<le> n"
  shows "fits n h (edges_of h i)"
proof (rule bounded_fits, intro allI impI)
  fix p assume "chain h (edges_of h i) p"
  then have "is_path h i p" by (simp add: is_path_chain)
  with assms(1) have "length p \<le> length h" by (rule cycle_free_path_length)
  with assms(2) show "length p \<le> n" by simp
qed

lemma fits_bound: "fits n h es \<Longrightarrow> chain h es p \<Longrightarrow> length p \<le> n"
proof (induction n h es arbitrary: p rule: fits.induct)
  case (1 limit h)
  then show ?case by (cases p) simp_all
next
  case (2 h e es)
  then show ?case by simp
next
  case (3 l h e es)
  show ?case
  proof (cases p)
    case Nil
    then show ?thesis by simp
  next
    case (Cons x q)
    with "3.prems"(2) have x: "x \<in> set (e # es)" and q: "chain h (edges_of h (target x)) q"
      by simp_all
    show ?thesis
    proof (cases "x = e")
      case True
      with q "3.prems"(1) "3.IH"(1) have "length q \<le> l" by simp
      with Cons show ?thesis by simp
    next
      case False
      with x q Cons have "chain h es p" by simp
      with "3.prems"(1) "3.IH"(2) show ?thesis by simp
    qed
  qed
qed

lemma cycle_repeats:
  assumes "is_path h i p" and "end_of i p = i"
  shows "is_path h i (concat (replicate k p)) \<and> end_of i (concat (replicate k p)) = i"
proof (induction k)
  case 0
  show ?case by (simp add: end_of_def)
next
  case (Suc k)
  have e: "end_of i (p @ q) = end_of (end_of i p) q" for q
    by (simp add: end_of_def)
  from Suc assms show ?case by (simp add: is_path_append e)
qed

lemma fits_cycle_free:
  assumes "list_all (\<lambda>i. fits n h (edges_of h i)) [0..<length h]"
  shows "cycle_free h"
  unfolding cycle_free_def
proof (intro allI impI notI, elim conjE)
  fix i p assume p: "p \<noteq> []" "is_path h i p" and ret: "end_of i p = i"
  from p have "edges_of h i \<noteq> []" by (cases p) auto
  then have "i < length h" by (auto simp: edges_of_def split: if_splits)
  with assms have f: "fits n h (edges_of h i)" by (simp add: list_all_iff)
  from cycle_repeats [OF p(2) ret, of "Suc n"]
  have "chain h (edges_of h i) (concat (replicate (Suc n) p))"
    by (simp only: is_path_chain)
  with f have "length (concat (replicate (Suc n) p)) \<le> n" by (rule fits_bound)
  moreover have "Suc n \<le> length (concat (replicate (Suc n) p))"
  proof -
    have "1 \<le> length p" using p(1) by (cases p) simp_all
    then have "Suc n * 1 \<le> Suc n * length p" by (intro mult_le_mono2)
    moreover have "length (concat (replicate k p)) = k * length p" for k
      by (induction k) simp_all
    ultimately show ?thesis by simp
  qed
  ultimately show False by simp
qed

subsection \<open>The example graphs\<close>

lemma shared_heap_eq:
  "shared_heap =
     [Node (Variable (Variable_init ''float'' ''v'' None 0 0 None)) [],
      Node (Expression ''{x}'') [\<lparr>ename = ''x'', n_type = ''m_expr'', target = 0\<rparr>],
      Node (Expression ''-{y}'') [\<lparr>ename = ''y'', n_type = ''m_expr'', target = 0\<rparr>],
      Node (Expression ''{l} {r}'')
        [\<lparr>ename = ''l'', n_type = ''m_expr'', target = 1\<rparr>,
         \<lparr>ename = ''r'', n_type = ''m_expr'', target = 2\<rparr>]]"
  by (simp add: shared_heap_def Expression_init_def Variable_node_def add_edge_def)

lemma shared_fits: "list_all (\<lambda>i. fits 4 shared_heap (edges_of shared_heap i)) [0..<length shared_heap]"
  unfolding shared_heap_eq
  by (simp add: edges_of_def eval_nat_numeral upt_rec)

lemma shared_search:
  "search 4 shared_heap 3 0 = Inr [[1, 0], [2, 0]]"
  "search 4 shared_heap 3 3 = Inr []"
  unfolding shared_heap_eq
  by (simp_all add: search_def traverse_def edges_of_def SearchNode_def SearchNode_init_def
        SearchNode_pre_action_def SearchNode_post_action_def eval_nat_numeral Let_def)

lemma shared_cycle_free: "cycle_free shared_heap"
  using shared_fits by (rule fits_cycle_free)

subsection \<open>Identity search\<close>

text \<open>
  C5.  On a cycle-free graph whose nodes have unique edge names, with a depth limit of
  at least the number of nodes, an identity search from a root returns without error a
  list with exactly one entry for each visit of an edge whose target is the searched
  node, that is for each non-empty path of edges from the root that ends at the node;
  the entry is the sequence of the targets along the path, so the nodes from below the
  root down to and including the match.  A node reached by two paths gives two entries,
  and a node that no path reaches gives the empty list.
\<close>

theorem identity_search_paths:
  assumes "cycle_free h" and "names_unique h" and "length h \<le> limit"
  shows "\<exists>ps. search limit h root x = Inr (map (map target) ps) \<and>
              distinct ps \<and>
              set ps = {p. p \<noteq> [] \<and> is_path h root p \<and> target (last p) = x} \<and>
              length ps = card {p. p \<noteq> [] \<and> is_path h root p \<and> target (last p) = x} \<and>
              ((\<forall>p. p \<noteq> [] \<and> is_path h root p \<longrightarrow> target (last p) \<noteq> x) \<longrightarrow> ps = [])"
proof -
  let ?es = "edges_of h root"
  let ?ps = "filter (\<lambda>p. target (last p) = x) (post_walks limit h ?es)"
  have f: "fits limit h ?es" using assms(1,3) by (rule cycle_free_fits)
  have "traverse_edges limit h (SearchNode x) ?es \<lparr>result = [], cur_path_stack = []\<rparr> =
          Inr \<lparr>result = [] @ map (\<lambda>p. [] @ map target p) ?ps, cur_path_stack = []\<rparr>"
    using f by (rule traverse_edges_SearchNode)
  then have s: "search limit h root x = Inr (map (map target) ?ps)"
    by (simp add: search_def traverse_def SearchNode_init_def)
  have d: "distinct ?ps"
    using assms(2) names_unique_edges_of [OF assms(2)] by (intro distinct_filter distinct_post_walks)
  have e: "set ?ps = {p. p \<noteq> [] \<and> is_path h root p \<and> target (last p) = x}"
    using set_pre_walks [OF f] by (auto simp: set_post_walks is_path_chain)
  have c: "length ?ps = card {p. p \<noteq> [] \<and> is_path h root p \<and> target (last p) = x}"
    using d e distinct_card [of ?ps] by simp
  have n: "(\<forall>p. p \<noteq> [] \<and> is_path h root p \<longrightarrow> target (last p) \<noteq> x) \<longrightarrow> ?ps = []"
  proof
    assume "\<forall>p. p \<noteq> [] \<and> is_path h root p \<longrightarrow> target (last p) \<noteq> x"
    with e have "set ?ps = {}" by auto
    then show "?ps = []" by simp
  qed
  from s d e c n show ?thesis by blast
qed

theorem identity_search_paths_witness:
  "cycle_free shared_heap \<and> names_unique shared_heap \<and> length shared_heap \<le> 4 \<and>
   search 4 shared_heap 3 0 = Inr [[1, 0], [2, 0]] \<and>
   card {p. p \<noteq> [] \<and> is_path shared_heap 3 p \<and> target (last p) = 0} = 2 \<and>
   search 4 shared_heap 3 3 = Inr []"
proof -
  have u: "names_unique shared_heap" by (simp add: shared_heap_eq names_unique_def)
  have l: "length shared_heap \<le> 4" by (simp add: shared_heap_eq)
  have s: "search 4 shared_heap 3 0 = Inr [[1, 0], [2, 0]]" by (rule shared_search)
  have z: "search 4 shared_heap 3 3 = Inr []" by (rule shared_search)
  from identity_search_paths [OF shared_cycle_free u l, of 3 0]
  obtain ps :: "edge list list" where
    ps: "search 4 shared_heap 3 0 = Inr (map (map target) ps)"
    "length ps = card {p. p \<noteq> [] \<and> is_path shared_heap 3 p \<and> target (last p) = 0}"
    by blast
  from ps(1) s have "map (map target) ps = [[1, 0], [2, 0]]" by simp
  then have "length (map (map target) ps) = 2" by simp
  then have "length ps = 2" by simp
  with ps(2) have "card {p. p \<noteq> [] \<and> is_path shared_heap 3 p \<and> target (last p) = 0} = 2"
    by simp
  with shared_cycle_free u l s z show ?thesis by blast
qed

end
